theory Spec2Isabelle
  imports Main "HOL-Library.Word"
begin

section \<open>The two programs\<close>

text \<open>
  The repository holds two versions of one proxy.  \<open>Closure\<close> is \<^verbatim>\<open>src/main.go\<close>: a
  session is the function \<^verbatim>\<open>proxy\<close>, whose clean-up is a stack of \<^verbatim>\<open>defer\<close>s.
  \<open>Struct\<close> is \<^verbatim>\<open>src/unnamed/part_000\<close>: a session is a \<^verbatim>\<open>client\<close> struct driven by
  \<^verbatim>\<open>mind\<close> = \<^verbatim>\<open>setup; doProxy; teardown\<close>.  Both share the globals \<^verbatim>\<open>active\<close>,
  \<^verbatim>\<open>waiting\<close>, \<^verbatim>\<open>concurrency\<close> and the condition variable \<^verbatim>\<open>wCond\<close>.

  The process is a set of goroutines.  It is modelled as an interleaving of atomic steps:
  every statement that touches shared state (the lock, \<^verbatim>\<open>active\<close>, \<^verbatim>\<open>waiting\<close>, the
  condition variable, the channel \<^verbatim>\<open>done\<close>) is a step of its own, and a scheduler event
  says which goroutine moves.  Wall-clock timestamps and the durations printed in the log
  are left out; the integer counters are Go \<^verbatim>\<open>int\<close>s, modelled as unbounded integers
  (each stays between 0 and the number of sessions started, see
  \<open>counters_at_most_sessions\<close>, so a 64-bit \<^verbatim>\<open>int\<close> does not wrap); the \<^verbatim>\<open>uint64\<close>
  sequence number \<^verbatim>\<open>count\<close> of part_000 is a 64-bit word.
\<close>

datatype variant = Closure | Struct

text \<open>Program points of a session's own goroutine.\<close>

datatype pc =
    Start        \<comment> \<open>\<^verbatim>\<open>proxy\<close> entered / \<^verbatim>\<open>setup\<close> entered, before \<^verbatim>\<open>c.w.Add(2)\<close>\<close>
  | AcqLock      \<comment> \<open>at \<^verbatim>\<open>wCond.L.Lock()\<close> of \<^verbatim>\<open>pre\<close> / \<^verbatim>\<open>setup\<close>\<close>
  | AcqEnter     \<comment> \<open>at \<^verbatim>\<open>waiting++\<close> (after \<^verbatim>\<open>count++; c.ID = count\<close> in \<^verbatim>\<open>setup\<close>)\<close>
  | AcqTest      \<comment> \<open>at the loop test \<^verbatim>\<open>active == concurrency\<close>\<close>
  | Parked       \<comment> \<open>inside \<^verbatim>\<open>wCond.Wait()\<close>, lock released, not yet signalled\<close>
  | Woken        \<comment> \<open>inside \<^verbatim>\<open>wCond.Wait()\<close>, signalled, re-taking the lock\<close>
  | AcqLeave     \<comment> \<open>at \<^verbatim>\<open>waiting--\<close>\<close>
  | AcqAdmit     \<comment> \<open>at \<^verbatim>\<open>active++\<close>\<close>
  | AcqUnlock    \<comment> \<open>at the deferred \<^verbatim>\<open>wCond.L.Unlock()\<close>\<close>
  | Dialing      \<comment> \<open>inside \<^verbatim>\<open>net.Dial\<close>\<close>
  | Pump         \<comment> \<open>at \<^verbatim>\<open>w.Wait()\<close> (main.go) / at \<^verbatim>\<open><-done\<close> (\<^verbatim>\<open>copyAll\<close>)\<close>
  | LogOk        \<comment> \<open>at \<^verbatim>\<open>c.logSuccess()\<close>\<close>
  | LogErr       \<comment> \<open>at \<^verbatim>\<open>c.logError()\<close>\<close>
  | TdStart      \<comment> \<open>at \<^verbatim>\<open>log.Println("Teardown start")\<close>\<close>
  | CloseConn    \<comment> \<open>at \<^verbatim>\<open>c.conn.Close()\<close> of \<^verbatim>\<open>teardown\<close>\<close>
  | CloseServer  \<comment> \<open>at \<^verbatim>\<open>c.server.Close()\<close> / the deferred \<^verbatim>\<open>p.Close()\<close>\<close>
  | TdClosed     \<comment> \<open>at \<^verbatim>\<open>log.Println("Proxy connection closed")\<close>\<close>
  | RelLock      \<comment> \<open>at \<^verbatim>\<open>wCond.L.Lock()\<close> of \<^verbatim>\<open>post\<close> / \<^verbatim>\<open>teardown\<close>\<close>
  | RelDec       \<comment> \<open>at \<^verbatim>\<open>active--\<close>\<close>
  | RelUnlock    \<comment> \<open>at \<^verbatim>\<open>wCond.L.Unlock()\<close>\<close>
  | RelSignal    \<comment> \<open>at \<^verbatim>\<open>wCond.Signal()\<close>\<close>
  | DeferClose   \<comment> \<open>at the deferred \<^verbatim>\<open>c.Close()\<close> of main.go\<close>
  | DeferLog     \<comment> \<open>at the deferred logging closure of main.go\<close>
  | Done

datatype sock = SNil | SOpen | SClosed

text \<open>Program points of a copy goroutine.\<close>

datatype task =
    TNone        \<comment> \<open>not started\<close>
  | TCopying     \<comment> \<open>inside \<^verbatim>\<open>io.Copy\<close>\<close>
  | TCopied      \<comment> \<open>\<^verbatim>\<open>io.Copy\<close> has returned, at \<^verbatim>\<open>w.Done()\<close>\<close>
  | TSending     \<comment> \<open>at \<^verbatim>\<open>done <- true\<close> (part_000 only)\<close>
  | TFinished    \<comment> \<open>the goroutine has returned\<close>

datatype dir = C2S | S2C

datatype log_line =
    LogSuccess          \<comment> \<open>\<^verbatim>\<open>status=success\<close>\<close>
  | LogError string     \<comment> \<open>\<^verbatim>\<open>status=error ... message="..."\<close>\<close>
  | LogTeardownStart    \<comment> \<open>\<^verbatim>\<open>Teardown start\<close>\<close>
  | LogProxyClosed      \<comment> \<open>\<^verbatim>\<open>Proxy connection closed\<close>\<close>

text \<open>What a session has done so far, oldest first.\<close>

datatype action =
    Acquired | Released | MarkDone | ClosedConn | ClosedServer | Logged log_line

text \<open>
  The \<^verbatim>\<open>client\<close> struct of part_000; main.go keeps the same data in the locals of
  \<^verbatim>\<open>proxy\<close>.  \<open>didWait\<close> is a field of the struct in part_000; for main.go it is kept
  as a history variable, set at the same place and read by no step.  \<open>hist\<close> is a history
  variable in both.
\<close>

record session =
  pc :: pc
  ID :: "64 word"
  didWait :: bool
  err :: "string option"
  conn :: sock
  server :: sock
  wg :: int
  copyTo :: task
  copyFrom :: task
  hist :: "action list"

text \<open>The handler goroutine of one connection to the stats port.\<close>

datatype spc = SLoadActive | SLoadWaiting | SWrite | SClose | SDone

text \<open>What the handler has done on its connection, oldest first.\<close>

datatype io = IoRead | IoWrite string | IoClose

record stats_conn =
  spc :: spc
  ra :: int
  rw :: int
  sio :: "io list"

record cfg =
  active :: int
  waiting :: int
  lock :: "nat option"
  count :: "64 word"
  sessions :: "session list"
  conns :: "stats_conn list"
  crashed :: bool

definition init :: cfg where
  "init = \<lparr>active = 0, waiting = 0, lock = None, count = 0, sessions = [], conns = [],
           crashed = False\<rparr>"

definition new_session :: session where
  "new_session = \<lparr>pc = Start, ID = 0, didWait = False, err = None, conn = SOpen,
                  server = SNil, wg = 0, copyTo = TNone, copyFrom = TNone, hist = []\<rparr>"

definition new_conn :: stats_conn where
  "new_conn = \<lparr>spc = SLoadActive, ra = 0, rw = 0, sio = []\<rparr>"

section \<open>The stats line\<close>

text \<open>\<^verbatim>\<open>fmt.Fprintf(c, "active: %d, waiting: %d\n", active, waiting)\<close>\<close>

definition digit_char :: "nat \<Rightarrow> char" where
  "digit_char n = ''0123456789'' ! n"

fun digits :: "nat \<Rightarrow> string" where
  "digits n = (if n < 10 then [digit_char n] else digits (n div 10) @ [digit_char (n mod 10)])"

declare digits.simps [simp del]

definition fmt_d :: "int \<Rightarrow> string" where
  "fmt_d i = (if i < 0 then CHR ''-'' # digits (nat (- i)) else digits (nat i))"

definition stats_line :: "int \<Rightarrow> int \<Rightarrow> string" where
  "stats_line a w = ''active: '' @ fmt_d a @ '', waiting: '' @ fmt_d w @ [CHR 0x0A]"

section \<open>Steps\<close>

definition upd :: "cfg \<Rightarrow> nat \<Rightarrow> (session \<Rightarrow> session) \<Rightarrow> cfg" where
  "upd s t f = s\<lparr>sessions := (sessions s)[t := f (sessions s ! t)]\<rparr>"

definition act :: "action \<Rightarrow> session \<Rightarrow> session" where
  "act a c = c\<lparr>hist := hist c @ [a]\<rparr>"

definition parked :: "session \<Rightarrow> bool" where
  "parked c = (pc c = Parked)"

text \<open>Where a session continues after \<^verbatim>\<open>wCond.Signal()\<close>: main.go runs the remaining
  defers (\<^verbatim>\<open>c.Close()\<close>, then the log closure); \<^verbatim>\<open>teardown\<close> returns.\<close>

definition after_release :: "variant \<Rightarrow> pc" where
  "after_release v = (case v of Closure \<Rightarrow> DeferClose | Struct \<Rightarrow> Done)"

text \<open>One step of session \<open>t\<close>'s own goroutine.  \<open>None\<close>: the goroutine cannot move now
  (it is blocked, or needs an outside event).  \<^verbatim>\<open>Lock()\<close> needs the lock free.
  \<^verbatim>\<open>Wait()\<close> puts the caller on the condition's list and releases the lock in one step,
  and returns only after a \<^verbatim>\<open>Signal\<close> has picked the caller and the lock has been taken
  again (Go's \<^verbatim>\<open>sync.Cond\<close> has no other wake-ups).  \<^verbatim>\<open>Signal()\<close> with nobody parked
  does nothing; with somebody parked it is the event \<open>Wake\<close> below.  A method call on a nil
  \<^verbatim>\<open>net.Conn\<close> or a nil \<^verbatim>\<open>error\<close> panics.\<close>

definition run :: "variant \<Rightarrow> int \<Rightarrow> cfg \<Rightarrow> nat \<Rightarrow> cfg option" where
  "run v cap s t =
    (let c = sessions s ! t in
     case pc c of
       Start \<Rightarrow>
         Some (upd s t (\<lambda>c. c\<lparr>pc := AcqLock, wg := (if v = Struct then wg c + 2 else wg c)\<rparr>))
     | AcqLock \<Rightarrow>
         (if lock s = None then Some (upd (s\<lparr>lock := Some t\<rparr>) t (\<lambda>c. c\<lparr>pc := AcqEnter\<rparr>))
          else None)
     | AcqEnter \<Rightarrow>
         (if v = Struct
          then Some (upd (s\<lparr>count := count s + 1, waiting := waiting s + 1\<rparr>) t
                      (\<lambda>c. c\<lparr>pc := AcqTest, ID := count s + 1\<rparr>))
          else Some (upd (s\<lparr>waiting := waiting s + 1\<rparr>) t (\<lambda>c. c\<lparr>pc := AcqTest\<rparr>)))
     | AcqTest \<Rightarrow>
         (if active s = cap
          then Some (upd (s\<lparr>lock := None\<rparr>) t (\<lambda>c. c\<lparr>pc := Parked, didWait := True\<rparr>))
          else Some (upd s t (\<lambda>c. c\<lparr>pc := AcqLeave\<rparr>)))
     | Parked \<Rightarrow> None
     | Woken \<Rightarrow>
         (if lock s = None then Some (upd (s\<lparr>lock := Some t\<rparr>) t (\<lambda>c. c\<lparr>pc := AcqTest\<rparr>))
          else None)
     | AcqLeave \<Rightarrow> Some (upd (s\<lparr>waiting := waiting s - 1\<rparr>) t (\<lambda>c. c\<lparr>pc := AcqAdmit\<rparr>))
     | AcqAdmit \<Rightarrow> Some (upd (s\<lparr>active := active s + 1\<rparr>) t (\<lambda>c. c\<lparr>pc := AcqUnlock\<rparr>))
     | AcqUnlock \<Rightarrow> Some (upd (s\<lparr>lock := None\<rparr>) t (\<lambda>c. act Acquired (c\<lparr>pc := Dialing\<rparr>)))
     | Dialing \<Rightarrow> None
     | Pump \<Rightarrow>
         (if v = Closure \<and> wg c = 0
          then Some (upd s t (\<lambda>c. act MarkDone (c\<lparr>pc := CloseServer\<rparr>)))
          else None)
     | LogOk \<Rightarrow> Some (upd s t (\<lambda>c. act (Logged LogSuccess) (c\<lparr>pc := TdStart\<rparr>)))
     | LogErr \<Rightarrow>
         (case err c of
            Some m \<Rightarrow> Some (upd s t (\<lambda>c. act (Logged (LogError m)) (c\<lparr>pc := TdStart\<rparr>)))
          | None \<Rightarrow> Some (s\<lparr>crashed := True\<rparr>))
     | TdStart \<Rightarrow> Some (upd s t (\<lambda>c. act (Logged LogTeardownStart) (c\<lparr>pc := CloseConn\<rparr>)))
     | CloseConn \<Rightarrow>
         Some (upd s t (\<lambda>c. act ClosedConn (c\<lparr>pc := CloseServer, conn := SClosed\<rparr>)))
     | CloseServer \<Rightarrow>
         (if server c = SNil then Some (s\<lparr>crashed := True\<rparr>)
          else Some (upd s t (\<lambda>c. act ClosedServer
                 (c\<lparr>pc := (case v of Closure \<Rightarrow> RelLock | Struct \<Rightarrow> TdClosed),
                    server := SClosed\<rparr>))))
     | TdClosed \<Rightarrow> Some (upd s t (\<lambda>c. act (Logged LogProxyClosed) (c\<lparr>pc := RelLock\<rparr>)))
     | RelLock \<Rightarrow>
         (if lock s = None then Some (upd (s\<lparr>lock := Some t\<rparr>) t (\<lambda>c. c\<lparr>pc := RelDec\<rparr>))
          else None)
     | RelDec \<Rightarrow> Some (upd (s\<lparr>active := active s - 1\<rparr>) t (\<lambda>c. c\<lparr>pc := RelUnlock\<rparr>))
     | RelUnlock \<Rightarrow> Some (upd (s\<lparr>lock := None\<rparr>) t (\<lambda>c. c\<lparr>pc := RelSignal\<rparr>))
     | RelSignal \<Rightarrow>
         (if list_ex parked (sessions s) then None
          else Some (upd s t (\<lambda>c. act Released (c\<lparr>pc := after_release v\<rparr>))))
     | DeferClose \<Rightarrow>
         Some (upd s t (\<lambda>c. act ClosedConn (c\<lparr>pc := DeferLog, conn := SClosed\<rparr>)))
     | DeferLog \<Rightarrow>
         Some (upd s t (\<lambda>c. act (Logged (case err c of None \<Rightarrow> LogSuccess | Some m \<Rightarrow> LogError m))
                 (c\<lparr>pc := Done\<rparr>)))
     | Done \<Rightarrow> None)"

text \<open>\<^verbatim>\<open>net.Dial\<close> returns: \<open>None\<close> for a connection, \<open>Some m\<close> for an error whose
  \<^verbatim>\<open>Error()\<close> is \<open>m\<close> (the returned \<^verbatim>\<open>net.Conn\<close> is then nil).  On success main.go
  defers \<^verbatim>\<open>p.Close()\<close>, adds 2 to its wait group and starts the two copy goroutines;
  \<^verbatim>\<open>doProxy\<close> calls \<^verbatim>\<open>copyAll\<close>, which starts them.  On failure main.go returns into
  its defers (\<^verbatim>\<open>post()\<close> first); \<^verbatim>\<open>doProxy\<close> logs the error and returns to \<^verbatim>\<open>mind\<close>.\<close>

definition dial :: "variant \<Rightarrow> cfg \<Rightarrow> nat \<Rightarrow> string option \<Rightarrow> cfg option" where
  "dial v s t r =
    (if pc (sessions s ! t) \<noteq> Dialing then None
     else case r of
       None \<Rightarrow>
         Some (upd s t (\<lambda>c. c\<lparr>pc := Pump, err := None, server := SOpen,
                              wg := (if v = Closure then wg c + 2 else wg c),
                              copyTo := TCopying, copyFrom := TCopying\<rparr>))
     | Some m \<Rightarrow>
         Some (upd s t (\<lambda>c. c\<lparr>pc := (case v of Closure \<Rightarrow> RelLock | Struct \<Rightarrow> LogErr),
                              err := Some m, server := SNil\<rparr>)))"

text \<open>\<^verbatim>\<open>wCond.Signal()\<close> by session \<open>t\<close> wakes the parked session \<open>u\<close>.\<close>

definition wake :: "variant \<Rightarrow> cfg \<Rightarrow> nat \<Rightarrow> nat \<Rightarrow> cfg option" where
  "wake v s t u =
    (if pc (sessions s ! t) = RelSignal \<and> u < length (sessions s) \<and> pc (sessions s ! u) = Parked
     then Some (upd (upd s u (\<lambda>c. c\<lparr>pc := Woken\<rparr>)) t
                  (\<lambda>c. act Released (c\<lparr>pc := after_release v\<rparr>)))
     else None)"

definition task_of :: "dir \<Rightarrow> session \<Rightarrow> task" where
  "task_of d c = (case d of C2S \<Rightarrow> copyTo c | S2C \<Rightarrow> copyFrom c)"

definition set_task :: "dir \<Rightarrow> task \<Rightarrow> session \<Rightarrow> session" where
  "set_task d k c = (case d of C2S \<Rightarrow> c\<lparr>copyTo := k\<rparr> | S2C \<Rightarrow> c\<lparr>copyFrom := k\<rparr>)"

text \<open>\<^verbatim>\<open>io.Copy\<close> of a copy goroutine returns (end of stream, an error, or a closed socket).\<close>

definition copy_end :: "cfg \<Rightarrow> nat \<Rightarrow> dir \<Rightarrow> cfg option" where
  "copy_end s t d =
    (if task_of d (sessions s ! t) = TCopying then Some (upd s t (set_task d TCopied)) else None)"

text \<open>The copy goroutine calls \<^verbatim>\<open>w.Done()\<close>, which panics on a negative counter.  In
  main.go the goroutine then returns; in part_000 it goes on to \<^verbatim>\<open>done <- true\<close>.\<close>

definition copy_run :: "variant \<Rightarrow> cfg \<Rightarrow> nat \<Rightarrow> dir \<Rightarrow> cfg option" where
  "copy_run v s t d =
    (let c = sessions s ! t in
     if task_of d c \<noteq> TCopied then None
     else if wg c \<le> 0 then Some (s\<lparr>crashed := True\<rparr>)
     else Some (upd s t (\<lambda>c. set_task d (case v of Closure \<Rightarrow> TFinished | Struct \<Rightarrow> TSending)
                              (c\<lparr>wg := wg c - 1\<rparr>))))"

text \<open>The unbuffered channel \<^verbatim>\<open>done\<close> of \<^verbatim>\<open>copyAll\<close>: a send completes only together
  with the receive \<^verbatim>\<open><-done\<close>; then \<^verbatim>\<open>c.done = time.Now()\<close> and the sender returns.\<close>

definition recv :: "variant \<Rightarrow> cfg \<Rightarrow> nat \<Rightarrow> dir \<Rightarrow> cfg option" where
  "recv v s t d =
    (let c = sessions s ! t in
     if v = Struct \<and> pc c = Pump \<and> task_of d c = TSending
     then Some (upd s t (\<lambda>c. act MarkDone (set_task d TFinished (c\<lparr>pc := LogOk\<rparr>))))
     else None)"

text \<open>The handler of a stats connection: the two arguments of \<^verbatim>\<open>Fprintf\<close> are read one
  after the other, without the lock; the line is written; the deferred \<^verbatim>\<open>c.Close()\<close> runs.\<close>

definition stats_run :: "cfg \<Rightarrow> nat \<Rightarrow> cfg option" where
  "stats_run s k =
    (let h = conns s ! k;
         put = (\<lambda>h'. Some (s\<lparr>conns := (conns s)[k := h']\<rparr>)) in
     case spc h of
       SLoadActive \<Rightarrow> put (h\<lparr>spc := SLoadWaiting, ra := active s\<rparr>)
     | SLoadWaiting \<Rightarrow> put (h\<lparr>spc := SWrite, rw := waiting s\<rparr>)
     | SWrite \<Rightarrow> put (h\<lparr>spc := SClose, sio := sio h @ [IoWrite (stats_line (ra h) (rw h))]\<rparr>)
     | SClose \<Rightarrow> put (h\<lparr>spc := SDone, sio := sio h @ [IoClose]\<rparr>)
     | SDone \<Rightarrow> None)"

datatype event =
    Accept                      \<comment> \<open>the accept loop starts a session goroutine\<close>
  | Run nat                     \<comment> \<open>a session's goroutine takes its next step\<close>
  | DialRes nat "string option" \<comment> \<open>\<^verbatim>\<open>net.Dial\<close> returns\<close>
  | Wake nat nat                \<comment> \<open>\<^verbatim>\<open>Signal\<close> of the first wakes the second\<close>
  | CopyEnd nat dir
  | CopyRun nat dir
  | Recv nat dir
  | StatsAccept                 \<comment> \<open>the stats accept loop starts a handler\<close>
  | StatsRun nat

text \<open>A panic ends the process: no goroutine moves after it.\<close>

definition step :: "variant \<Rightarrow> int \<Rightarrow> cfg \<Rightarrow> event \<Rightarrow> cfg option" where
  "step v cap s e =
    (if crashed s then None
     else case e of
       Accept \<Rightarrow> Some (s\<lparr>sessions := sessions s @ [new_session]\<rparr>)
     | Run t \<Rightarrow> (if t < length (sessions s) then run v cap s t else None)
     | DialRes t r \<Rightarrow> (if t < length (sessions s) then dial v s t r else None)
     | Wake t u \<Rightarrow> (if t < length (sessions s) then wake v s t u else None)
     | CopyEnd t d \<Rightarrow> (if t < length (sessions s) then copy_end s t d else None)
     | CopyRun t d \<Rightarrow> (if t < length (sessions s) then copy_run v s t d else None)
     | Recv t d \<Rightarrow> (if t < length (sessions s) then recv v s t d else None)
     | StatsAccept \<Rightarrow> Some (s\<lparr>conns := conns s @ [new_conn]\<rparr>)
     | StatsRun k \<Rightarrow> (if k < length (conns s) then stats_run s k else None))"

fun exec :: "variant \<Rightarrow> int \<Rightarrow> cfg \<Rightarrow> event list \<Rightarrow> cfg option" where
  "exec v cap s [] = Some s"
| "exec v cap s (e # es) = (case step v cap s e of None \<Rightarrow> None | Some s' \<Rightarrow> exec v cap s' es)"

section \<open>Sample executions\<close>

text \<open>A session that finds the lock free and a slot free goes from \<open>Start\<close> to
  \<open>Dialing\<close> in seven steps.\<close>

definition acquire :: "nat \<Rightarrow> event list" where
  "acquire t = [Run t, Run t, Run t, Run t, Run t, Run t, Run t]"

text \<open>Capacity 1.  Session 0 holds the slot, session 1 parks.  The dial of session 0
  fails, so it enters \<^verbatim>\<open>post()\<close> with \<^verbatim>\<open>waiting = 1\<close>; after its \<^verbatim>\<open>Unlock\<close> and
  before its \<^verbatim>\<open>Signal\<close>, session 2 arrives and takes the slot.  Session 1 is woken,
  finds \<^verbatim>\<open>active == concurrency\<close> and parks again.\<close>

definition release_called :: "event list" where
  "release_called =
     [Accept, Accept, Accept] @ acquire 0 @ [Run 1, Run 1, Run 1, Run 1] @
     [DialRes 0 (Some ''refused'')]"

definition barging :: "event list" where
  "barging =
     release_called @ [Run 0, Run 0, Run 0] @ acquire 2 @
     [Wake 0 1, Run 1, Run 1, Run 0, Run 0]"

text \<open>One session, dial succeeds, the client side \<^verbatim>\<open>io.Copy\<close> ends and calls
  \<^verbatim>\<open>w.Done()\<close>; the other direction is still copying.\<close>

definition one_side_done :: "event list" where
  "one_side_done = [Accept] @ acquire 0 @ [DialRes 0 None, CopyEnd 0 C2S, CopyRun 0 C2S]"

text \<open>part_000: after that, \<^verbatim>\<open>copyAll\<close> receives from \<^verbatim>\<open>done\<close> and the session runs
  \<^verbatim>\<open>logSuccess\<close> and \<^verbatim>\<open>teardown\<close> to the end.\<close>

definition struct_success :: "event list" where
  "struct_success =
     one_side_done @ [Recv 0 C2S] @ [Run 0, Run 0, Run 0, Run 0, Run 0, Run 0, Run 0, Run 0, Run 0]"

text \<open>Then the closed sockets end the other \<^verbatim>\<open>io.Copy\<close>, which calls \<^verbatim>\<open>w.Done()\<close>
  and reaches \<^verbatim>\<open>done <- true\<close>.\<close>

definition struct_orphan :: "event list" where
  "struct_orphan = struct_success @ [CopyEnd 0 S2C, CopyRun 0 S2C]"

text \<open>Two sessions; the backend refuses the dial of session 0, which logs the error and
  enters \<^verbatim>\<open>teardown\<close>: \<open>dial_refused\<close> stops at \<^verbatim>\<open>c.server.Close()\<close>,
  \<open>dial_refused_close\<close> executes it.\<close>

definition dial_refused :: "event list" where
  "dial_refused =
     [Accept, Accept] @ acquire 0 @ [DialRes 0 (Some ''connection refused''), Run 0, Run 0, Run 0]"

definition dial_refused_close :: "event list" where
  "dial_refused_close = dial_refused @ [Run 0]"

text \<open>The same refusal in main.go: \<^verbatim>\<open>proxy\<close> returns into its defers.\<close>

definition closure_dial_refused :: "event list" where
  "closure_dial_refused =
     [Accept, Accept] @ acquire 0 @
     [DialRes 0 (Some ''connection refused''), Run 0, Run 0, Run 0, Run 0, Run 0, Run 0]"

text \<open>Capacity 2, two sessions hold a slot, a third is parked, then a client connects to
  the stats port.\<close>

definition stats_probe :: "event list" where
  "stats_probe =
     [Accept, Accept, Accept] @ acquire 0 @ acquire 1 @ [Run 2, Run 2, Run 2, Run 2] @
     [StatsAccept, StatsRun 0, StatsRun 0, StatsRun 0, StatsRun 0]"

text \<open>Capacity 1, nobody holds the slot.  A session has executed \<^verbatim>\<open>waiting++\<close> when a
  stats handler reads the counters; the session then passes the test without parking.\<close>

definition passing_probe :: "event list" where
  "passing_probe =
     [Accept, Run 0, Run 0, Run 0, StatsAccept, StatsRun 0, StatsRun 0, StatsRun 0, StatsRun 0,
      Run 0, Run 0, Run 0, Run 0]"

section \<open>Invariants\<close>

text \<open>Sessions blocked inside \<^verbatim>\<open>wCond.Wait()\<close>.\<close>

definition blocked :: "pc \<Rightarrow> bool" where
  "blocked p = (p = Parked \<or> p = Woken)"

text \<open>A session whose \<^verbatim>\<open>pre()\<close> / \<^verbatim>\<open>setup()\<close> had to wait and has returned.\<close>

definition returned_blocked :: "session \<Rightarrow> bool" where
  "returned_blocked c = (didWait c \<and> pc c \<notin> {Start, AcqLock, AcqEnter, AcqTest, Parked, Woken,
                                                 AcqLeave, AcqAdmit, AcqUnlock})"


subsection \<open>The admission counters\<close>

text \<open>Program points at which a session holds the lock of \<^verbatim>\<open>wCond\<close>, at which it has
  executed \<^verbatim>\<open>waiting++\<close> but not yet \<^verbatim>\<open>waiting--\<close>, and at which it has executed
  \<^verbatim>\<open>active++\<close> but not yet \<^verbatim>\<open>active--\<close>.\<close>

definition holds_lock :: "pc \<Rightarrow> bool" where
  "holds_lock p = (p \<in> {AcqEnter, AcqTest, AcqLeave, AcqAdmit, AcqUnlock, RelDec, RelUnlock})"

definition in_wait :: "pc \<Rightarrow> bool" where
  "in_wait p = (p \<in> {AcqTest, Parked, Woken, AcqLeave})"

definition is_active :: "pc \<Rightarrow> bool" where
  "is_active p = (p \<in> {AcqUnlock, Dialing, Pump, LogOk, LogErr, TdStart, CloseConn, CloseServer,
                        TdClosed, RelLock, RelDec})"

text \<open>The number of sessions whose program point satisfies \<open>P\<close>.\<close>

definition cnt :: "(pc \<Rightarrow> bool) \<Rightarrow> session list \<Rightarrow> int" where
  "cnt P cs = int (length (filter (\<lambda>c. P (pc c)) cs))"

text \<open>The lock has at most one holder and \<open>lock\<close> names it; the two counters count the
  sessions at the program points above; \<open>active\<close> is at most the capacity; and from the
  successful test to the increment there is a free slot.\<close>

definition gate_inv :: "int \<Rightarrow> cfg \<Rightarrow> bool" where
  "gate_inv cap s =
    ((\<forall>t < length (sessions s). holds_lock (pc (sessions s ! t)) \<longrightarrow> lock s = Some t) \<and>
     cnt is_active (sessions s) = active s \<and>
     cnt in_wait (sessions s) = waiting s \<and>
     active s \<le> cap \<and>
     (\<forall>t < length (sessions s). pc (sessions s ! t) \<in> {AcqLeave, AcqAdmit} \<longrightarrow> active s < cap))"

subsection \<open>One session\<close>

text \<open>A session's history and sockets are determined by its program point and by the result
  of its dial.  \<open>full_hist\<close> is what a session has done when it is over (for part_000 after a
  failed dial: when it reaches \<^verbatim>\<open>c.server.Close()\<close>); \<open>progress\<close> says how much of it is
  done at a program point, and is \<open>None\<close> where the program cannot be.\<close>

definition pre_acq :: "pc \<Rightarrow> bool" where
  "pre_acq p = (p \<in> {Start, AcqLock, AcqEnter, AcqTest, Parked, Woken, AcqLeave, AcqAdmit, AcqUnlock})"

definition pre_dial :: "pc \<Rightarrow> bool" where
  "pre_dial p = (pre_acq p \<or> p = Dialing)"

definition releasing :: "pc \<Rightarrow> bool" where
  "releasing p = (p \<in> {RelLock, RelDec, RelUnlock, RelSignal})"

definition full_hist :: "variant \<Rightarrow> string option \<Rightarrow> action list" where
  "full_hist v e =
    (case (v, e) of
       (Closure, None) \<Rightarrow> [Acquired, MarkDone, ClosedServer, Released, ClosedConn, Logged LogSuccess]
     | (Closure, Some m) \<Rightarrow> [Acquired, Released, ClosedConn, Logged (LogError m)]
     | (Struct, None) \<Rightarrow> [Acquired, MarkDone, Logged LogSuccess, Logged LogTeardownStart,
                           ClosedConn, ClosedServer, Logged LogProxyClosed, Released]
     | (Struct, Some m) \<Rightarrow> [Acquired, Logged (LogError m), Logged LogTeardownStart, ClosedConn])"

definition progress :: "variant \<Rightarrow> string option \<Rightarrow> pc \<Rightarrow> nat option" where
  "progress v e p =
    (if pre_acq p then (if e = None then Some 0 else None)
     else if p = Dialing \<or> p = Pump then (if e = None then Some 1 else None)
     else case (v, e) of
       (Closure, None) \<Rightarrow>
         (if p = CloseServer then Some 2 else if releasing p then Some 3
          else if p = DeferClose then Some 4 else if p = DeferLog then Some 5
          else if p = Done then Some 6 else None)
     | (Closure, Some m) \<Rightarrow>
         (if releasing p then Some 1
          else if p = DeferClose then Some 2 else if p = DeferLog then Some 3
          else if p = Done then Some 4 else None)
     | (Struct, None) \<Rightarrow>
         (if p = LogOk then Some 2 else if p = TdStart then Some 3
          else if p = CloseConn then Some 4 else if p = CloseServer then Some 5
          else if p = TdClosed then Some 6 else if releasing p then Some 7
          else if p = Done then Some 8 else None)
     | (Struct, Some m) \<Rightarrow>
         (if p = LogErr then Some 1 else if p = TdStart then Some 2
          else if p = CloseConn then Some 3 else if p = CloseServer then Some 4 else None))"

text \<open>The wait group counts the copy goroutines that have not called \<^verbatim>\<open>w.Done()\<close>.  In
  main.go the session leaves the pump when the count is 0.  In part_000 no copy goroutine
  has returned while the session is at the pump, and exactly one afterwards.\<close>

definition pend :: "task \<Rightarrow> int" where
  "pend k = (if k = TCopying \<or> k = TCopied then 1 else 0)"

definition tasks_ok :: "variant \<Rightarrow> session \<Rightarrow> bool" where
  "tasks_ok v c =
    (if pre_dial (pc c) \<or> err c \<noteq> None
     then copyTo c = TNone \<and> copyFrom c = TNone \<and>
          wg c = (if v = Struct \<and> pc c \<noteq> Start then 2 else 0)
     else copyTo c \<noteq> TNone \<and> copyFrom c \<noteq> TNone \<and> wg c = pend (copyTo c) + pend (copyFrom c) \<and>
          (case v of
             Closure \<Rightarrow> copyTo c \<noteq> TSending \<and> copyFrom c \<noteq> TSending \<and> (pc c \<noteq> Pump \<longrightarrow> wg c = 0)
           | Struct \<Rightarrow> (if pc c = Pump then copyTo c \<noteq> TFinished \<and> copyFrom c \<noteq> TFinished
                        else (copyTo c = TFinished) \<noteq> (copyFrom c = TFinished))))"

definition socks_ok :: "session \<Rightarrow> bool" where
  "socks_ok c =
    (conn c = (if ClosedConn \<in> set (hist c) then SClosed else SOpen) \<and>
     server c = (if ClosedServer \<in> set (hist c) then SClosed
                 else if pre_dial (pc c) \<or> err c \<noteq> None then SNil else SOpen))"

definition hist_ok :: "variant \<Rightarrow> session \<Rightarrow> bool" where
  "hist_ok v c =
    (case progress v (err c) (pc c) of
       None \<Rightarrow> False
     | Some n \<Rightarrow> hist c = take n (full_hist v (err c)))"

definition sess_ok :: "variant \<Rightarrow> session \<Rightarrow> bool" where
  "sess_ok v c = (hist_ok v c \<and> socks_ok c \<and> tasks_ok v c)"

definition all_ok :: "variant \<Rightarrow> cfg \<Rightarrow> bool" where
  "all_ok v s = (\<forall>t < length (sessions s). sess_ok v (sessions s ! t))"

subsection \<open>Wake-ups\<close>

text \<open>A session that has parked at least once and is not parked now has been woken by a
  \<^verbatim>\<open>Signal\<close>; a session past its \<^verbatim>\<open>Signal\<close> has released.  There are never more of the
  first kind than of the second.\<close>

definition resumed :: "session \<Rightarrow> bool" where
  "resumed c = (didWait c \<and> pc c \<noteq> Parked)"

definition released :: "session \<Rightarrow> bool" where
  "released c = (pc c \<in> {DeferClose, DeferLog, Done})"

definition num :: "(session \<Rightarrow> bool) \<Rightarrow> cfg \<Rightarrow> nat" where
  "num P s = length (filter P (sessions s))"

definition wake_inv :: "cfg \<Rightarrow> bool" where
  "wake_inv s =
    ((\<forall>t < length (sessions s). pc (sessions s ! t) = Parked \<longrightarrow> didWait (sessions s ! t)) \<and>
     num resumed s \<le> num released s)"

text \<open>No wake-up is lost: while a session is parked, every free slot is matched by a
  session that will signal (it has decremented \<open>active\<close> and not yet signalled) or by one that
  is on its way through the test to the increment.\<close>

definition on_the_way :: "pc \<Rightarrow> bool" where
  "on_the_way p = (p \<in> {RelUnlock, RelSignal, Woken, AcqTest, AcqLeave, AcqAdmit})"

definition slot_inv :: "int \<Rightarrow> cfg \<Rightarrow> bool" where
  "slot_inv cap s = (0 < num parked s \<longrightarrow> cap - active s \<le> cnt on_the_way (sessions s))"

subsection \<open>Stats handlers\<close>




section \<open>Proofs of the invariants\<close>

lemma filter_upd_length:
  "t < length cs \<Longrightarrow>
   length (filter Q (cs[t := x])) + (if Q (cs ! t) then 1 else 0) =
   length (filter Q cs) + (if Q x then 1 else 0)"
proof (induction cs arbitrary: t)
  case Nil
  then show ?case by simp
next
  case (Cons c cs)
  show ?case
  proof (cases t)
    case 0
    then show ?thesis by simp
  next
    case (Suc k)
    with Cons.prems have "k < length cs" by simp
    from Cons.IH[OF this] Suc show ?thesis by (cases "Q c") auto
  qed
qed

lemma cnt_upd:
  "t < length cs \<Longrightarrow>
   cnt P (cs[t := c']) = cnt P cs - (if P (pc (cs ! t)) then 1 else 0) + (if P (pc c') then 1 else 0)"
  using filter_upd_length[of t cs "\<lambda>c. P (pc c)" c'] by (auto simp: cnt_def split: if_splits)

lemma cnt_snoc: "cnt P (cs @ [c]) = cnt P cs + (if P (pc c) then 1 else 0)"
  by (simp add: cnt_def)

lemma cnt_nonneg: "0 \<le> cnt P cs"
  by (simp add: cnt_def)

lemma gate_inv_step:
  assumes G: "gate_inv cap s" and t: "t < length (sessions s)"
    and S: "sessions s' = (sessions s)[t := c']"
    and L: "holds_lock (pc c') \<longrightarrow> lock s' = Some t"
    and L2: "lock s' = lock s \<or> lock s = None \<or> lock s = Some t"
    and A: "active s' = active s - (if is_active (pc (sessions s ! t)) then 1 else 0)
                                 + (if is_active (pc c') then 1 else 0)"
    and W: "waiting s' = waiting s - (if in_wait (pc (sessions s ! t)) then 1 else 0)
                                   + (if in_wait (pc c') then 1 else 0)"
    and C: "active s' \<le> cap"
    and D: "pc c' \<in> {AcqLeave, AcqAdmit} \<longrightarrow> active s' < cap"
    and D2: "active s' = active s \<or> holds_lock (pc (sessions s ! t))"
  shows "gate_inv cap s'"
proof -
  have own: "holds_lock (pc (sessions s ! u)) \<Longrightarrow> lock s = Some u" if "u < length (sessions s)" for u
    using G that by (simp add: gate_inv_def)
  have lk: "\<forall>u < length (sessions s'). holds_lock (pc (sessions s' ! u)) \<longrightarrow> lock s' = Some u"
  proof (intro allI impI)
    fix u assume u: "u < length (sessions s')" and h: "holds_lock (pc (sessions s' ! u))"
    show "lock s' = Some u"
    proof (cases "u = t")
      case True
      with h S t L show ?thesis by simp
    next
      case False
      with h S u have "holds_lock (pc (sessions s ! u))" and "u < length (sessions s)" by simp_all
      then have "lock s = Some u" using own by simp
      with L2 False show ?thesis by auto
    qed
  qed
  have adm: "\<forall>u < length (sessions s'). pc (sessions s' ! u) \<in> {AcqLeave, AcqAdmit} \<longrightarrow> active s' < cap"
  proof (intro allI impI)
    fix u assume u: "u < length (sessions s')" and h: "pc (sessions s' ! u) \<in> {AcqLeave, AcqAdmit}"
    show "active s' < cap"
    proof (cases "u = t")
      case True
      with h S t D show ?thesis by simp
    next
      case False
      with h S u have p: "pc (sessions s ! u) \<in> {AcqLeave, AcqAdmit}" and ul: "u < length (sessions s)"
        by simp_all
      then have "holds_lock (pc (sessions s ! u))" by (auto simp: holds_lock_def)
      then have "lock s = Some u" using own ul by simp
      moreover have "holds_lock (pc (sessions s ! t)) \<Longrightarrow> lock s = Some t" using own t by simp
      ultimately have "active s' = active s" using D2 False by auto
      moreover have "active s < cap" using G p ul by (auto simp: gate_inv_def)
      ultimately show ?thesis by simp
    qed
  qed
  have "cnt is_active (sessions s') = active s'" "cnt in_wait (sessions s') = waiting s'"
    using G A W S t by (simp_all add: gate_inv_def cnt_upd)
  with lk adm C show ?thesis by (simp add: gate_inv_def)
qed

lemma gate_inv_same:
  assumes "gate_inv cap s" "sessions s' = sessions s" "lock s' = lock s" "active s' = active s"
    "waiting s' = waiting s"
  shows "gate_inv cap s'"
  using assms by (simp add: gate_inv_def)

lemma gate_inv_local:
  assumes G: "gate_inv cap s" and t: "t < length (sessions s)"
    and S: "sessions s' = (sessions s)[t := c']" and P: "pc c' = pc (sessions s ! t)"
    and E: "lock s' = lock s" "active s' = active s" "waiting s' = waiting s"
  shows "gate_inv cap s'"
proof (rule gate_inv_step[OF G t S])
  show "holds_lock (pc c') \<longrightarrow> lock s' = Some t" using G t P E by (simp add: gate_inv_def)
  show "pc c' \<in> {AcqLeave, AcqAdmit} \<longrightarrow> active s' < cap" using G t P E by (simp add: gate_inv_def)
  show "active s' \<le> cap" using G E by (simp add: gate_inv_def)
qed (simp_all add: P E)

lemma gate_inv_upd:
  assumes G: "gate_inv cap s" and t: "t < length (sessions s)"
    and E: "s' = upd s0 t f"
    and S0: "sessions s0 = sessions s"
    and L: "holds_lock (pc (f (sessions s ! t))) \<longrightarrow> lock s0 = Some t"
    and L2: "lock s0 = lock s \<or> lock s = None \<or> lock s = Some t"
    and A: "active s0 = active s - (if is_active (pc (sessions s ! t)) then 1 else 0)
                                 + (if is_active (pc (f (sessions s ! t))) then 1 else 0)"
    and W: "waiting s0 = waiting s - (if in_wait (pc (sessions s ! t)) then 1 else 0)
                                   + (if in_wait (pc (f (sessions s ! t))) then 1 else 0)"
    and C: "active s0 \<le> cap"
    and D: "pc (f (sessions s ! t)) \<in> {AcqLeave, AcqAdmit} \<longrightarrow> active s0 < cap"
    and D2: "active s0 = active s \<or> holds_lock (pc (sessions s ! t))"
  shows "gate_inv cap s'"
proof (rule gate_inv_step[OF G t, where c' = "f (sessions s ! t)"])
  show "sessions s' = (sessions s)[t := f (sessions s ! t)]" by (simp add: E upd_def S0)
qed (use L L2 A W C D D2 in \<open>simp_all add: E upd_def\<close>)

lemmas pcdefs = holds_lock_def in_wait_def is_active_def after_release_def

lemma pc_set_task: "pc (set_task d k c) = pc c"
  by (cases d) (simp_all add: set_task_def)

lemma pc_act: "pc (act a c) = pc c"
  by (simp add: act_def)

subsection \<open>Step rules of a session's goroutine\<close>

lemma run_Start:
  assumes "run v cap s t = Some s'" "pc (sessions s ! t) = Start"
  shows "s' = upd s t (\<lambda>c. c\<lparr>pc := AcqLock, wg := (if v = Struct then wg c + 2 else wg c)\<rparr>)"
  using assms by (simp add: run_def split: if_splits)

lemma run_AcqLock:
  assumes "run v cap s t = Some s'" "pc (sessions s ! t) = AcqLock"
  shows "s' = upd (s\<lparr>lock := Some t\<rparr>) t (\<lambda>c. c\<lparr>pc := AcqEnter\<rparr>)"
  using assms by (simp add: run_def split: if_splits)

lemma run_AcqLock_guard:
  assumes "run v cap s t = Some s'" "pc (sessions s ! t) = AcqLock"
  shows "lock s = None"
  using assms by (simp_all add: run_def split: if_splits)

lemma run_AcqEnter:
  assumes "run v cap s t = Some s'" "pc (sessions s ! t) = AcqEnter"
  shows "s' = upd (if v = Struct then s\<lparr>count := count s + 1, waiting := waiting s + 1\<rparr> else s\<lparr>waiting := waiting s + 1\<rparr>) t (\<lambda>c. if v = Struct then c\<lparr>pc := AcqTest, ID := count s + 1\<rparr> else c\<lparr>pc := AcqTest\<rparr>)"
  using assms by (cases v) (simp_all add: run_def)

lemma run_AcqTest_full:
  assumes "run v cap s t = Some s'" "pc (sessions s ! t) = AcqTest" "active s = cap"
  shows "s' = upd (s\<lparr>lock := None\<rparr>) t (\<lambda>c. c\<lparr>pc := Parked, didWait := True\<rparr>)"
  using assms by (simp add: run_def split: if_splits)

lemma run_AcqTest_free:
  assumes "run v cap s t = Some s'" "pc (sessions s ! t) = AcqTest" "active s \<noteq> cap"
  shows "s' = upd s t (\<lambda>c. c\<lparr>pc := AcqLeave\<rparr>)"
  using assms by (simp add: run_def split: if_splits)

lemma run_Woken:
  assumes "run v cap s t = Some s'" "pc (sessions s ! t) = Woken"
  shows "s' = upd (s\<lparr>lock := Some t\<rparr>) t (\<lambda>c. c\<lparr>pc := AcqTest\<rparr>)"
  using assms by (simp add: run_def split: if_splits)

lemma run_Woken_guard:
  assumes "run v cap s t = Some s'" "pc (sessions s ! t) = Woken"
  shows "lock s = None"
  using assms by (simp_all add: run_def split: if_splits)

lemma run_AcqLeave:
  assumes "run v cap s t = Some s'" "pc (sessions s ! t) = AcqLeave"
  shows "s' = upd (s\<lparr>waiting := waiting s - 1\<rparr>) t (\<lambda>c. c\<lparr>pc := AcqAdmit\<rparr>)"
  using assms by (simp add: run_def split: if_splits)

lemma run_AcqAdmit:
  assumes "run v cap s t = Some s'" "pc (sessions s ! t) = AcqAdmit"
  shows "s' = upd (s\<lparr>active := active s + 1\<rparr>) t (\<lambda>c. c\<lparr>pc := AcqUnlock\<rparr>)"
  using assms by (simp add: run_def split: if_splits)

lemma run_AcqUnlock:
  assumes "run v cap s t = Some s'" "pc (sessions s ! t) = AcqUnlock"
  shows "s' = upd (s\<lparr>lock := None\<rparr>) t (\<lambda>c. act Acquired (c\<lparr>pc := Dialing\<rparr>))"
  using assms by (simp add: run_def split: if_splits)

lemma run_Pump:
  assumes "run v cap s t = Some s'" "pc (sessions s ! t) = Pump"
  shows "s' = upd s t (\<lambda>c. act MarkDone (c\<lparr>pc := CloseServer\<rparr>))"
  using assms by (simp add: run_def split: if_splits)

lemma run_Pump_guard:
  assumes "run v cap s t = Some s'" "pc (sessions s ! t) = Pump"
  shows "v = Closure" "wg (sessions s ! t) = 0"
  using assms by (simp_all add: run_def split: if_splits)

lemma run_LogOk:
  assumes "run v cap s t = Some s'" "pc (sessions s ! t) = LogOk"
  shows "s' = upd s t (\<lambda>c. act (Logged LogSuccess) (c\<lparr>pc := TdStart\<rparr>))"
  using assms by (simp add: run_def split: if_splits)

lemma run_LogErr:
  assumes "run v cap s t = Some s'" "pc (sessions s ! t) = LogErr" "err (sessions s ! t) = Some m"
  shows "s' = upd s t (\<lambda>c. act (Logged (LogError m)) (c\<lparr>pc := TdStart\<rparr>))"
  using assms by (simp add: run_def split: if_splits)

lemma run_TdStart:
  assumes "run v cap s t = Some s'" "pc (sessions s ! t) = TdStart"
  shows "s' = upd s t (\<lambda>c. act (Logged LogTeardownStart) (c\<lparr>pc := CloseConn\<rparr>))"
  using assms by (simp add: run_def split: if_splits)

lemma run_CloseConn:
  assumes "run v cap s t = Some s'" "pc (sessions s ! t) = CloseConn"
  shows "s' = upd s t (\<lambda>c. act ClosedConn (c\<lparr>pc := CloseServer, conn := SClosed\<rparr>))"
  using assms by (simp add: run_def split: if_splits)

lemma run_CloseServer:
  assumes "run v cap s t = Some s'" "pc (sessions s ! t) = CloseServer" "server (sessions s ! t) \<noteq> SNil"
  shows "s' = upd s t (\<lambda>c. act ClosedServer (c\<lparr>pc := (case v of Closure \<Rightarrow> RelLock | Struct \<Rightarrow> TdClosed), server := SClosed\<rparr>))"
  using assms by (simp add: run_def split: if_splits)

lemma run_TdClosed:
  assumes "run v cap s t = Some s'" "pc (sessions s ! t) = TdClosed"
  shows "s' = upd s t (\<lambda>c. act (Logged LogProxyClosed) (c\<lparr>pc := RelLock\<rparr>))"
  using assms by (simp add: run_def split: if_splits)

lemma run_RelLock:
  assumes "run v cap s t = Some s'" "pc (sessions s ! t) = RelLock"
  shows "s' = upd (s\<lparr>lock := Some t\<rparr>) t (\<lambda>c. c\<lparr>pc := RelDec\<rparr>)"
  using assms by (simp add: run_def split: if_splits)

lemma run_RelLock_guard:
  assumes "run v cap s t = Some s'" "pc (sessions s ! t) = RelLock"
  shows "lock s = None"
  using assms by (simp_all add: run_def split: if_splits)

lemma run_RelDec:
  assumes "run v cap s t = Some s'" "pc (sessions s ! t) = RelDec"
  shows "s' = upd (s\<lparr>active := active s - 1\<rparr>) t (\<lambda>c. c\<lparr>pc := RelUnlock\<rparr>)"
  using assms by (simp add: run_def split: if_splits)

lemma run_RelUnlock:
  assumes "run v cap s t = Some s'" "pc (sessions s ! t) = RelUnlock"
  shows "s' = upd (s\<lparr>lock := None\<rparr>) t (\<lambda>c. c\<lparr>pc := RelSignal\<rparr>)"
  using assms by (simp add: run_def split: if_splits)

lemma run_RelSignal:
  assumes "run v cap s t = Some s'" "pc (sessions s ! t) = RelSignal"
  shows "s' = upd s t (\<lambda>c. act Released (c\<lparr>pc := after_release v\<rparr>))"
  using assms by (simp add: run_def split: if_splits)

lemma run_RelSignal_guard:
  assumes "run v cap s t = Some s'" "pc (sessions s ! t) = RelSignal"
  shows "\<not> list_ex parked (sessions s)"
  using assms by (simp_all add: run_def split: if_splits)

lemma run_DeferClose:
  assumes "run v cap s t = Some s'" "pc (sessions s ! t) = DeferClose"
  shows "s' = upd s t (\<lambda>c. act ClosedConn (c\<lparr>pc := DeferLog, conn := SClosed\<rparr>))"
  using assms by (simp add: run_def split: if_splits)

lemma run_DeferLog:
  assumes "run v cap s t = Some s'" "pc (sessions s ! t) = DeferLog"
  shows "s' = upd s t (\<lambda>c. act (Logged (case err c of None \<Rightarrow> LogSuccess | Some m \<Rightarrow> LogError m)) (c\<lparr>pc := Done\<rparr>))"
  using assms by (simp add: run_def split: if_splits)

lemma run_LogErr_nil:
  assumes "run v cap s t = Some s'" "pc (sessions s ! t) = LogErr" "err (sessions s ! t) = None"
  shows "s' = s\<lparr>crashed := True\<rparr>"
  using assms by (simp add: run_def)

lemma run_CloseServer_nil:
  assumes "run v cap s t = Some s'" "pc (sessions s ! t) = CloseServer" "server (sessions s ! t) = SNil"
  shows "s' = s\<lparr>crashed := True\<rparr>"
  using assms by (simp add: run_def)

lemma run_blocked:
  assumes "pc (sessions s ! t) \<in> {Parked, Dialing, Done}"
  shows "run v cap s t = None"
  using assms by (auto simp: run_def)

lemma run_gate_inv:
  assumes G: "gate_inv cap s" and t: "t < length (sessions s)" and R: "run v cap s t = Some s'"
  shows "gate_inv cap s'"
proof -
  have le: "active s \<le> cap" using G by (simp add: gate_inv_def)
  have lt: "pc (sessions s ! t) \<in> {AcqLeave, AcqAdmit} \<Longrightarrow> active s < cap"
    using G t by (auto simp: gate_inv_def)
  have own: "holds_lock (pc (sessions s ! t)) \<Longrightarrow> lock s = Some t"
    using G t by (simp add: gate_inv_def)
  show ?thesis
  proof (cases "pc (sessions s ! t)")
    case Start
    show ?thesis using Start le own lt
      by (intro gate_inv_upd[OF G t run_Start[OF R Start]]) (simp_all add: pcdefs pc_act)
  next
    case AcqLock
    show ?thesis using AcqLock le own lt run_AcqLock_guard[OF R AcqLock]
      by (intro gate_inv_upd[OF G t run_AcqLock[OF R AcqLock]]) (simp_all add: pcdefs pc_act)
  next
    case AcqEnter
    show ?thesis using AcqEnter le own lt
      by (intro gate_inv_upd[OF G t run_AcqEnter[OF R AcqEnter]]) (simp_all add: pcdefs pc_act)
  next
    case AcqTest
    show ?thesis
    proof (cases "active s = cap")
      case True
      show ?thesis using AcqTest True le own lt
        by (intro gate_inv_upd[OF G t run_AcqTest_full[OF R AcqTest True]]) (simp_all add: pcdefs pc_act)
    next
      case False
      show ?thesis using AcqTest False le own lt
        by (intro gate_inv_upd[OF G t run_AcqTest_free[OF R AcqTest False]]) (simp_all add: pcdefs pc_act)
    qed
  next
    case Woken
    show ?thesis using Woken le own lt run_Woken_guard[OF R Woken]
      by (intro gate_inv_upd[OF G t run_Woken[OF R Woken]]) (simp_all add: pcdefs pc_act)
  next
    case AcqLeave
    show ?thesis using AcqLeave le own lt
      by (intro gate_inv_upd[OF G t run_AcqLeave[OF R AcqLeave]]) (simp_all add: pcdefs pc_act)
  next
    case AcqAdmit
    show ?thesis using AcqAdmit le own lt
      by (intro gate_inv_upd[OF G t run_AcqAdmit[OF R AcqAdmit]]) (simp_all add: pcdefs pc_act)
  next
    case AcqUnlock
    show ?thesis using AcqUnlock le own lt
      by (intro gate_inv_upd[OF G t run_AcqUnlock[OF R AcqUnlock]]) (simp_all add: pcdefs pc_act)
  next
    case Pump
    show ?thesis using Pump le own lt run_Pump_guard[OF R Pump]
      by (intro gate_inv_upd[OF G t run_Pump[OF R Pump]]) (simp_all add: pcdefs pc_act)
  next
    case LogOk
    show ?thesis using LogOk le own lt
      by (intro gate_inv_upd[OF G t run_LogOk[OF R LogOk]]) (simp_all add: pcdefs pc_act)
  next
    case LogErr
    show ?thesis
    proof (cases "err (sessions s ! t)")
      case None
      show ?thesis using run_LogErr_nil[OF R LogErr None] by (intro gate_inv_same[OF G]) simp_all
    next
      case (Some m)
      show ?thesis using LogErr Some le own lt
        by (intro gate_inv_upd[OF G t run_LogErr[OF R LogErr Some]]) (simp_all add: pcdefs pc_act)
    qed
  next
    case TdStart
    show ?thesis using TdStart le own lt
      by (intro gate_inv_upd[OF G t run_TdStart[OF R TdStart]]) (simp_all add: pcdefs pc_act)
  next
    case CloseConn
    show ?thesis using CloseConn le own lt
      by (intro gate_inv_upd[OF G t run_CloseConn[OF R CloseConn]]) (simp_all add: pcdefs pc_act)
  next
    case CloseServer
    show ?thesis
    proof (cases "server (sessions s ! t) = SNil")
      case True
      show ?thesis using run_CloseServer_nil[OF R CloseServer True] by (intro gate_inv_same[OF G]) simp_all
    next
      case False
      show ?thesis using CloseServer False le own lt
        by (intro gate_inv_upd[OF G t run_CloseServer[OF R CloseServer False]]) (simp_all add: pcdefs pc_act split: variant.splits)
    qed
  next
    case TdClosed
    show ?thesis using TdClosed le own lt
      by (intro gate_inv_upd[OF G t run_TdClosed[OF R TdClosed]]) (simp_all add: pcdefs pc_act)
  next
    case RelLock
    show ?thesis using RelLock le own lt run_RelLock_guard[OF R RelLock]
      by (intro gate_inv_upd[OF G t run_RelLock[OF R RelLock]]) (simp_all add: pcdefs pc_act)
  next
    case RelDec
    show ?thesis using RelDec le own lt
      by (intro gate_inv_upd[OF G t run_RelDec[OF R RelDec]]) (simp_all add: pcdefs pc_act)
  next
    case RelUnlock
    show ?thesis using RelUnlock le own lt
      by (intro gate_inv_upd[OF G t run_RelUnlock[OF R RelUnlock]]) (simp_all add: pcdefs pc_act)
  next
    case RelSignal
    show ?thesis using RelSignal le own lt run_RelSignal_guard[OF R RelSignal]
      by (intro gate_inv_upd[OF G t run_RelSignal[OF R RelSignal]]) (simp_all add: pcdefs pc_act split: variant.splits)
  next
    case DeferClose
    show ?thesis using DeferClose le own lt
      by (intro gate_inv_upd[OF G t run_DeferClose[OF R DeferClose]]) (simp_all add: pcdefs pc_act)
  next
    case DeferLog
    show ?thesis using DeferLog le own lt
      by (intro gate_inv_upd[OF G t run_DeferLog[OF R DeferLog]]) (simp_all add: pcdefs pc_act)
  qed (use R in \<open>simp_all add: run_def\<close>)
qed

lemma dial_gate_inv:
  assumes G: "gate_inv cap s" and t: "t < length (sessions s)" and R: "dial v s t r = Some s'"
  shows "gate_inv cap s'"
proof -
  have le: "active s \<le> cap" using G by (simp add: gate_inv_def)
  from R have P: "pc (sessions s ! t) = Dialing" by (simp add: dial_def split: if_splits)
  show ?thesis
  proof (cases r)
    case None
    with R P have E: "s' = upd s t (\<lambda>c. c\<lparr>pc := Pump, err := None, server := SOpen,
                              wg := (if v = Closure then wg c + 2 else wg c),
                              copyTo := TCopying, copyFrom := TCopying\<rparr>)"
      by (simp add: dial_def)
    show ?thesis using P le by (intro gate_inv_upd[OF G t E]) (simp_all add: pcdefs)
  next
    case (Some m)
    with R P have E: "s' = upd s t (\<lambda>c. c\<lparr>pc := (case v of Closure \<Rightarrow> RelLock | Struct \<Rightarrow> LogErr),
                              err := Some m, server := SNil\<rparr>)"
      by (simp add: dial_def)
    show ?thesis using P le
      by (intro gate_inv_upd[OF G t E]) (simp_all add: pcdefs split: variant.splits)
  qed
qed

lemma wake_gate_inv:
  assumes G: "gate_inv cap s" and t: "t < length (sessions s)" and R: "wake v s t u = Some s'"
  shows "gate_inv cap s'"
proof -
  have le: "active s \<le> cap" using G by (simp add: gate_inv_def)
  from R have P: "pc (sessions s ! t) = RelSignal" and u: "u < length (sessions s)"
    and Q: "pc (sessions s ! u) = Parked"
    and E: "s' = upd (upd s u (\<lambda>c. c\<lparr>pc := Woken\<rparr>)) t (\<lambda>c. act Released (c\<lparr>pc := after_release v\<rparr>))"
    by (simp_all add: wake_def split: if_splits)
  define s1 where "s1 = upd s u (\<lambda>c. c\<lparr>pc := Woken\<rparr>)"
  have G1: "gate_inv cap s1" using Q le
    by (intro gate_inv_upd[OF G u s1_def]) (simp_all add: pcdefs)
  have ne: "t \<noteq> u" using P Q by auto
  have t1: "t < length (sessions s1)" using t by (simp add: s1_def upd_def)
  have P1: "pc (sessions s1 ! t) = RelSignal" using P ne u by (simp add: s1_def upd_def)
  have le1: "active s1 \<le> cap" using le by (simp add: s1_def upd_def)
  have E1: "s' = upd s1 t (\<lambda>c. act Released (c\<lparr>pc := after_release v\<rparr>))"
    using E by (simp add: s1_def)
  show ?thesis using P1 le1
    by (intro gate_inv_upd[OF G1 t1 E1]) (simp_all add: pcdefs act_def split: variant.splits)
qed

lemma copy_end_gate_inv:
  assumes G: "gate_inv cap s" and t: "t < length (sessions s)" and R: "copy_end s t d = Some s'"
  shows "gate_inv cap s'"
proof -
  have le: "active s \<le> cap" using G by (simp add: gate_inv_def)
  from R have E: "s' = upd s t (set_task d TCopied)"
    by (simp add: copy_end_def split: if_splits)
  show ?thesis using G t
    by (intro gate_inv_local[OF G t, where c' = "set_task d TCopied (sessions s ! t)"])
       (simp_all add: E upd_def pc_set_task)
qed

lemma copy_run_gate_inv:
  assumes G: "gate_inv cap s" and t: "t < length (sessions s)" and R: "copy_run v s t d = Some s'"
  shows "gate_inv cap s'"
proof (cases "wg (sessions s ! t) \<le> 0")
  case True
  with R have "s' = s\<lparr>crashed := True\<rparr>" by (simp add: copy_run_def Let_def split: if_splits)
  then show ?thesis by (intro gate_inv_same[OF G]) simp_all
next
  case False
  define f where "f = (\<lambda>c. set_task d (case v of Closure \<Rightarrow> TFinished | Struct \<Rightarrow> TSending)
                              (c\<lparr>wg := wg c - 1\<rparr>))"
  from False R have E: "s' = upd s t f"
    by (simp add: copy_run_def Let_def f_def split: if_splits)
  show ?thesis
    by (intro gate_inv_local[OF G t, where c' = "f (sessions s ! t)"])
       (simp_all add: E upd_def f_def pc_set_task)
qed

lemma recv_gate_inv:
  assumes G: "gate_inv cap s" and t: "t < length (sessions s)" and R: "recv v s t d = Some s'"
  shows "gate_inv cap s'"
proof -
  have le: "active s \<le> cap" using G by (simp add: gate_inv_def)
  from R have P: "pc (sessions s ! t) = Pump"
    and E: "s' = upd s t (\<lambda>c. act MarkDone (set_task d TFinished (c\<lparr>pc := LogOk\<rparr>)))"
    by (simp_all add: recv_def Let_def split: if_splits)
  show ?thesis using P le
    by (intro gate_inv_upd[OF G t E]) (simp_all add: pcdefs pc_set_task pc_act)
qed

lemma stats_gate_inv:
  assumes G: "gate_inv cap s" and R: "stats_run s k = Some s'"
  shows "gate_inv cap s'"
  using R by (intro gate_inv_same[OF G])
    (auto simp: stats_run_def Let_def split: spc.splits)

lemma step_gate_inv:
  assumes G: "gate_inv cap s" and R: "step v cap s e = Some s'"
  shows "gate_inv cap s'"
proof (cases e)
  case Accept
  with R have "s' = s\<lparr>sessions := sessions s @ [new_session]\<rparr>"
    by (simp add: step_def split: if_splits)
  then show ?thesis using G
    by (auto simp: gate_inv_def cnt_snoc nth_append new_session_def pcdefs)
next
  case (Run t)
  with R G show ?thesis by (auto simp: step_def split: if_splits intro: run_gate_inv)
next
  case (DialRes t r)
  with R G show ?thesis by (auto simp: step_def split: if_splits intro: dial_gate_inv)
next
  case (Wake t u)
  with R G show ?thesis by (auto simp: step_def split: if_splits intro: wake_gate_inv)
next
  case (CopyEnd t d)
  with R G show ?thesis by (auto simp: step_def split: if_splits intro: copy_end_gate_inv)
next
  case (CopyRun t d)
  with R G show ?thesis by (auto simp: step_def split: if_splits intro: copy_run_gate_inv)
next
  case (Recv t d)
  with R G show ?thesis by (auto simp: step_def split: if_splits intro: recv_gate_inv)
next
  case StatsAccept
  with R have "s' = s\<lparr>conns := conns s @ [new_conn]\<rparr>"
    by (simp add: step_def split: if_splits)
  then show ?thesis by (intro gate_inv_same[OF G]) simp_all
next
  case (StatsRun k)
  with R G show ?thesis by (auto simp: step_def split: if_splits intro: stats_gate_inv)
qed

lemma exec_gate_inv:
  "gate_inv cap s \<Longrightarrow> exec v cap s es = Some s' \<Longrightarrow> gate_inv cap s'"
proof (induction es arbitrary: s)
  case Nil
  then show ?case by simp
next
  case (Cons e es)
  then show ?case by (auto split: option.splits dest: step_gate_inv)
qed

lemma init_gate_inv: "0 \<le> cap \<Longrightarrow> gate_inv cap init"
  by (simp add: gate_inv_def init_def cnt_def)

lemmas okdefs = sess_ok_def hist_ok_def socks_ok_def tasks_ok_def progress_def full_hist_def
  pre_acq_def pre_dial_def releasing_def pend_def after_release_def act_def

lemma all_ok_upd:
  assumes A: "all_ok v s" and t: "t < length (sessions s)"
    and E: "s' = upd s0 t f" and S0: "sessions s0 = sessions s"
    and K: "sess_ok v (f (sessions s ! t))"
  shows "all_ok v s'"
  unfolding all_ok_def
proof (intro allI impI)
  fix u assume "u < length (sessions s')"
  then have u: "u < length (sessions s)" by (simp add: E upd_def S0)
  show "sess_ok v (sessions s' ! u)"
  proof (cases "u = t")
    case True
    with K t show ?thesis by (simp add: E upd_def S0)
  next
    case False
    with A u show ?thesis by (simp add: E upd_def S0 all_ok_def)
  qed
qed

lemma run_all_ok:
  assumes A: "all_ok v s" and t: "t < length (sessions s)" and R: "run v cap s t = Some s'"
  shows "all_ok v s'"
proof -
  have K: "sess_ok v (sessions s ! t)" using A t by (simp add: all_ok_def)
  show ?thesis
  proof (cases "pc (sessions s ! t)")
    case Start
    show ?thesis using K Start
      by (intro all_ok_upd[OF A t run_Start[OF R Start]]) (cases v; cases "err (sessions s ! t)"; simp add: okdefs)+
  next
    case AcqLock
    show ?thesis using K AcqLock run_AcqLock_guard[OF R AcqLock]
      by (intro all_ok_upd[OF A t run_AcqLock[OF R AcqLock]]) (cases v; cases "err (sessions s ! t)"; simp add: okdefs)+
  next
    case AcqEnter
    show ?thesis using K AcqEnter
      by (intro all_ok_upd[OF A t run_AcqEnter[OF R AcqEnter]]) (cases v; cases "err (sessions s ! t)"; simp add: okdefs)+
  next
    case AcqTest
    show ?thesis
    proof (cases "active s = cap")
      case True
      show ?thesis using K AcqTest True
        by (intro all_ok_upd[OF A t run_AcqTest_full[OF R AcqTest True]]) (cases v; cases "err (sessions s ! t)"; simp add: okdefs)+
    next
      case False
      show ?thesis using K AcqTest False
        by (intro all_ok_upd[OF A t run_AcqTest_free[OF R AcqTest False]]) (cases v; cases "err (sessions s ! t)"; simp add: okdefs)+
    qed
  next
    case Woken
    show ?thesis using K Woken run_Woken_guard[OF R Woken]
      by (intro all_ok_upd[OF A t run_Woken[OF R Woken]]) (cases v; cases "err (sessions s ! t)"; simp add: okdefs)+
  next
    case AcqLeave
    show ?thesis using K AcqLeave
      by (intro all_ok_upd[OF A t run_AcqLeave[OF R AcqLeave]]) (cases v; cases "err (sessions s ! t)"; simp add: okdefs)+
  next
    case AcqAdmit
    show ?thesis using K AcqAdmit
      by (intro all_ok_upd[OF A t run_AcqAdmit[OF R AcqAdmit]]) (cases v; cases "err (sessions s ! t)"; simp add: okdefs)+
  next
    case AcqUnlock
    show ?thesis using K AcqUnlock
      by (intro all_ok_upd[OF A t run_AcqUnlock[OF R AcqUnlock]]) (cases v; cases "err (sessions s ! t)"; simp add: okdefs)+
  next
    case Pump
    show ?thesis using K Pump run_Pump_guard[OF R Pump]
      by (intro all_ok_upd[OF A t run_Pump[OF R Pump]]) (cases v; cases "err (sessions s ! t)"; simp add: okdefs)+
  next
    case LogOk
    show ?thesis using K LogOk
      by (intro all_ok_upd[OF A t run_LogOk[OF R LogOk]]) (cases v; cases "err (sessions s ! t)"; simp add: okdefs)+
  next
    case LogErr
    show ?thesis
    proof (cases "err (sessions s ! t)")
      case None
      show ?thesis using run_LogErr_nil[OF R LogErr None] A by (simp add: all_ok_def)
    next
      case (Some m)
      show ?thesis using K LogErr Some
        by (intro all_ok_upd[OF A t run_LogErr[OF R LogErr Some]]) (cases v; cases "err (sessions s ! t)"; simp add: okdefs)+
    qed
  next
    case TdStart
    show ?thesis using K TdStart
      by (intro all_ok_upd[OF A t run_TdStart[OF R TdStart]]) (cases v; cases "err (sessions s ! t)"; simp add: okdefs)+
  next
    case CloseConn
    show ?thesis using K CloseConn
      by (intro all_ok_upd[OF A t run_CloseConn[OF R CloseConn]]) (cases v; cases "err (sessions s ! t)"; simp add: okdefs)+
  next
    case CloseServer
    show ?thesis
    proof (cases "server (sessions s ! t) = SNil")
      case True
      show ?thesis using run_CloseServer_nil[OF R CloseServer True] A by (simp add: all_ok_def)
    next
      case False
      show ?thesis using K CloseServer False
        by (intro all_ok_upd[OF A t run_CloseServer[OF R CloseServer False]]) (cases v; cases "err (sessions s ! t)"; simp add: okdefs)+
    qed
  next
    case TdClosed
    show ?thesis using K TdClosed
      by (intro all_ok_upd[OF A t run_TdClosed[OF R TdClosed]]) (cases v; cases "err (sessions s ! t)"; simp add: okdefs)+
  next
    case RelLock
    show ?thesis using K RelLock run_RelLock_guard[OF R RelLock]
      by (intro all_ok_upd[OF A t run_RelLock[OF R RelLock]]) (cases v; cases "err (sessions s ! t)"; simp add: okdefs)+
  next
    case RelDec
    show ?thesis using K RelDec
      by (intro all_ok_upd[OF A t run_RelDec[OF R RelDec]]) (cases v; cases "err (sessions s ! t)"; simp add: okdefs)+
  next
    case RelUnlock
    show ?thesis using K RelUnlock
      by (intro all_ok_upd[OF A t run_RelUnlock[OF R RelUnlock]]) (cases v; cases "err (sessions s ! t)"; simp add: okdefs)+
  next
    case RelSignal
    show ?thesis using K RelSignal run_RelSignal_guard[OF R RelSignal]
      by (intro all_ok_upd[OF A t run_RelSignal[OF R RelSignal]]) (cases v; cases "err (sessions s ! t)"; simp add: okdefs)+
  next
    case DeferClose
    show ?thesis using K DeferClose
      by (intro all_ok_upd[OF A t run_DeferClose[OF R DeferClose]]) (cases v; cases "err (sessions s ! t)"; simp add: okdefs)+
  next
    case DeferLog
    show ?thesis using K DeferLog
      by (intro all_ok_upd[OF A t run_DeferLog[OF R DeferLog]]) (cases v; cases "err (sessions s ! t)"; simp add: okdefs)+
  qed (use R in \<open>simp_all add: run_def\<close>)
qed

lemma dial_all_ok:
  assumes A: "all_ok v s" and t: "t < length (sessions s)" and R: "dial v s t r = Some s'"
  shows "all_ok v s'"
proof -
  have K: "sess_ok v (sessions s ! t)" using A t by (simp add: all_ok_def)
  from R have P: "pc (sessions s ! t) = Dialing" by (simp add: dial_def split: if_splits)
  show ?thesis
  proof (cases r)
    case None
    with R P have E: "s' = upd s t (\<lambda>c. c\<lparr>pc := Pump, err := None, server := SOpen,
                              wg := (if v = Closure then wg c + 2 else wg c),
                              copyTo := TCopying, copyFrom := TCopying\<rparr>)"
      by (simp add: dial_def)
    show ?thesis using K P
      by (intro all_ok_upd[OF A t E]) (cases v; cases "err (sessions s ! t)"; simp add: okdefs)+
  next
    case (Some m)
    with R P have E: "s' = upd s t (\<lambda>c. c\<lparr>pc := (case v of Closure \<Rightarrow> RelLock | Struct \<Rightarrow> LogErr),
                              err := Some m, server := SNil\<rparr>)"
      by (simp add: dial_def)
    show ?thesis using K P
      by (intro all_ok_upd[OF A t E]) (cases v; cases "err (sessions s ! t)"; simp add: okdefs)+
  qed
qed

lemma wake_all_ok:
  assumes A: "all_ok v s" and t: "t < length (sessions s)" and R: "wake v s t u = Some s'"
  shows "all_ok v s'"
proof -
  from R have P: "pc (sessions s ! t) = RelSignal" and u: "u < length (sessions s)"
    and Q: "pc (sessions s ! u) = Parked"
    and E: "s' = upd (upd s u (\<lambda>c. c\<lparr>pc := Woken\<rparr>)) t (\<lambda>c. act Released (c\<lparr>pc := after_release v\<rparr>))"
    by (simp_all add: wake_def split: if_splits)
  define s1 where "s1 = upd s u (\<lambda>c. c\<lparr>pc := Woken\<rparr>)"
  have Ku: "sess_ok v (sessions s ! u)" using A u by (simp add: all_ok_def)
  have A1: "all_ok v s1" using Ku Q
    by (intro all_ok_upd[OF A u s1_def]) (cases v; cases "err (sessions s ! u)"; simp add: okdefs)+
  have ne: "t \<noteq> u" using P Q by auto
  have t1: "t < length (sessions s1)" using t by (simp add: s1_def upd_def)
  have P1: "pc (sessions s1 ! t) = RelSignal" using P ne u by (simp add: s1_def upd_def)
  have K1: "sess_ok v (sessions s1 ! t)" using A1 t1 by (simp add: all_ok_def)
  have E1: "s' = upd s1 t (\<lambda>c. act Released (c\<lparr>pc := after_release v\<rparr>))"
    using E by (simp add: s1_def)
  show ?thesis using K1 P1
    by (intro all_ok_upd[OF A1 t1 E1]) (cases v; cases "err (sessions s1 ! t)"; simp add: okdefs)+
qed

lemma hist_ok_set_task: "hist_ok v (set_task d k c) = hist_ok v c"
  by (cases d) (simp_all add: hist_ok_def set_task_def split: option.splits)

lemma socks_ok_set_task: "socks_ok (set_task d k c) = socks_ok c"
  by (cases d) (simp_all add: socks_ok_def set_task_def)

lemma hist_ok_wg: "hist_ok v (c\<lparr>wg := n\<rparr>) = hist_ok v c"
  by (simp add: hist_ok_def split: option.splits)

lemma socks_ok_wg: "socks_ok (c\<lparr>wg := n\<rparr>) = socks_ok c"
  by (simp add: socks_ok_def)

lemma tasks_ok_copied:
  assumes "tasks_ok v c" "task_of d c = TCopying"
  shows "tasks_ok v (set_task d TCopied c)"
  using assms
  by (cases v; cases d) (auto simp: tasks_ok_def pend_def set_task_def task_of_def split: if_splits)

lemma tasks_ok_done:
  assumes "tasks_ok v c" "task_of d c = TCopied"
  shows "0 < wg c \<and> tasks_ok v (set_task d (case v of Closure \<Rightarrow> TFinished | Struct \<Rightarrow> TSending)
                              (c\<lparr>wg := wg c - 1\<rparr>))"
  using assms
  by (cases v; cases d) (auto simp: tasks_ok_def pend_def set_task_def task_of_def split: if_splits)

lemma tasks_ok_recv:
  assumes "tasks_ok Struct c" "task_of d c = TSending" "pc c = Pump"
  shows "tasks_ok Struct (act MarkDone (set_task d TFinished (c\<lparr>pc := LogOk\<rparr>)))"
  using assms
  by (cases d) (auto simp: tasks_ok_def pend_def set_task_def task_of_def act_def pre_dial_def pre_acq_def
                split: if_splits)

lemma hist_socks_ok_recv:
  assumes "hist_ok Struct c" "socks_ok c" "tasks_ok Struct c" "pc c = Pump"
  shows "hist_ok Struct (act MarkDone (set_task d TFinished (c\<lparr>pc := LogOk\<rparr>)))"
        "socks_ok (act MarkDone (set_task d TFinished (c\<lparr>pc := LogOk\<rparr>)))"
  using assms
  by (cases d; cases "err c"; simp add: okdefs set_task_def)+

lemma copy_end_all_ok:
  assumes A: "all_ok v s" and t: "t < length (sessions s)" and R: "copy_end s t d = Some s'"
  shows "all_ok v s'"
proof -
  have K: "sess_ok v (sessions s ! t)" using A t by (simp add: all_ok_def)
  from R have P: "task_of d (sessions s ! t) = TCopying" and E: "s' = upd s t (set_task d TCopied)"
    by (simp_all add: copy_end_def split: if_splits)
  show ?thesis using K P
    by (intro all_ok_upd[OF A t E])
       (simp_all add: sess_ok_def hist_ok_set_task socks_ok_set_task tasks_ok_copied)
qed

lemma copy_run_all_ok:
  assumes A: "all_ok v s" and t: "t < length (sessions s)" and R: "copy_run v s t d = Some s'"
  shows "all_ok v s'"
proof (cases "wg (sessions s ! t) \<le> 0")
  case True
  with R have "s' = s\<lparr>crashed := True\<rparr>" by (simp add: copy_run_def Let_def split: if_splits)
  then show ?thesis using A by (simp add: all_ok_def)
next
  case False
  have K: "sess_ok v (sessions s ! t)" using A t by (simp add: all_ok_def)
  from False R have P: "task_of d (sessions s ! t) = TCopied"
    and E: "s' = upd s t (\<lambda>c. set_task d (case v of Closure \<Rightarrow> TFinished | Struct \<Rightarrow> TSending)
                              (c\<lparr>wg := wg c - 1\<rparr>))"
    by (simp_all add: copy_run_def Let_def split: if_splits)
  show ?thesis using K P
    by (intro all_ok_upd[OF A t E])
       (simp_all add: sess_ok_def hist_ok_set_task socks_ok_set_task hist_ok_wg socks_ok_wg
          tasks_ok_done)
qed

lemma recv_all_ok:
  assumes A: "all_ok v s" and t: "t < length (sessions s)" and R: "recv v s t d = Some s'"
  shows "all_ok v s'"
proof -
  have K: "sess_ok v (sessions s ! t)" using A t by (simp add: all_ok_def)
  from R have P: "pc (sessions s ! t) = Pump" "v = Struct" "task_of d (sessions s ! t) = TSending"
    and E: "s' = upd s t (\<lambda>c. act MarkDone (set_task d TFinished (c\<lparr>pc := LogOk\<rparr>)))"
    by (simp_all add: recv_def Let_def split: if_splits)
  show ?thesis using K P
    by (intro all_ok_upd[OF A t E])
       (simp_all add: sess_ok_def tasks_ok_recv hist_socks_ok_recv)
qed

lemma stats_all_ok:
  assumes A: "all_ok v s" and R: "stats_run s k = Some s'"
  shows "all_ok v s'"
proof -
  from R have "sessions s' = sessions s"
    by (auto simp: stats_run_def Let_def split: spc.splits)
  with A show ?thesis by (simp add: all_ok_def)
qed

lemma step_all_ok:
  assumes A: "all_ok v s" and R: "step v cap s e = Some s'"
  shows "all_ok v s'"
proof (cases e)
  case Accept
  with R have "s' = s\<lparr>sessions := sessions s @ [new_session]\<rparr>"
    by (simp add: step_def split: if_splits)
  moreover have "sess_ok v new_session"
    by (cases v) (simp_all add: new_session_def okdefs)
  ultimately show ?thesis using A by (auto simp: all_ok_def nth_append)
next
  case (Run t)
  with R A show ?thesis by (auto simp: step_def split: if_splits intro: run_all_ok)
next
  case (DialRes t r)
  with R A show ?thesis by (auto simp: step_def split: if_splits intro: dial_all_ok)
next
  case (Wake t u)
  with R A show ?thesis by (auto simp: step_def split: if_splits intro: wake_all_ok)
next
  case (CopyEnd t d)
  with R A show ?thesis by (auto simp: step_def split: if_splits intro: copy_end_all_ok)
next
  case (CopyRun t d)
  with R A show ?thesis by (auto simp: step_def split: if_splits intro: copy_run_all_ok)
next
  case (Recv t d)
  with R A show ?thesis by (auto simp: step_def split: if_splits intro: recv_all_ok)
next
  case StatsAccept
  with R have "s' = s\<lparr>conns := conns s @ [new_conn]\<rparr>"
    by (simp add: step_def split: if_splits)
  then show ?thesis using A by (simp add: all_ok_def)
next
  case (StatsRun k)
  with R A show ?thesis by (auto simp: step_def split: if_splits intro: stats_all_ok)
qed

lemma exec_all_ok:
  "all_ok v s \<Longrightarrow> exec v cap s es = Some s' \<Longrightarrow> all_ok v s'"
proof (induction es arbitrary: s)
  case Nil
  then show ?case by simp
next
  case (Cons e es)
  then show ?case by (auto split: option.splits dest: step_all_ok)
qed

lemma init_all_ok: "all_ok v init"
  by (simp add: all_ok_def init_def)

lemma num_upd:
  assumes "s' = upd s0 t f" "sessions s0 = sessions s" "t < length (sessions s)"
  shows "num P s' + (if P (sessions s ! t) then 1 else 0) =
         num P s + (if P (f (sessions s ! t)) then 1 else 0)"
  using assms filter_upd_length[of t "sessions s" P "f (sessions s ! t)"]
  by (simp add: num_def upd_def)

lemma wake_inv_upd:
  assumes I: "wake_inv s" and t: "t < length (sessions s)"
    and E: "s' = upd s0 t f" and S0: "sessions s0 = sessions s"
    and P: "pc (f (sessions s ! t)) = Parked \<longrightarrow> didWait (f (sessions s ! t))"
    and R: "resumed (f (sessions s ! t)) \<longrightarrow> resumed (sessions s ! t)"
    and Q: "released (sessions s ! t) \<longrightarrow> released (f (sessions s ! t))"
  shows "wake_inv s'"
proof -
  have a: "num resumed s' \<le> num resumed s"
    using num_upd[OF E S0 t, of resumed] R by (auto split: if_splits)
  have b: "num released s \<le> num released s'"
    using num_upd[OF E S0 t, of released] Q by (auto split: if_splits)
  have c: "\<forall>u < length (sessions s'). pc (sessions s' ! u) = Parked \<longrightarrow> didWait (sessions s' ! u)"
  proof (intro allI impI)
    fix u assume u: "u < length (sessions s')" and p: "pc (sessions s' ! u) = Parked"
    show "didWait (sessions s' ! u)"
    proof (cases "u = t")
      case True
      with p P t show ?thesis by (simp add: E upd_def S0)
    next
      case False
      with p u I show ?thesis by (simp add: E upd_def S0 wake_inv_def)
    qed
  qed
  from a b c I show ?thesis by (simp add: wake_inv_def)
qed

lemma didWait_set_task: "didWait (set_task d k c) = didWait c"
  by (cases d) (simp_all add: set_task_def)

lemma run_wake_inv:
  assumes I: "wake_inv s" and t: "t < length (sessions s)" and R: "run v cap s t = Some s'"
  shows "wake_inv s'"
proof -
  show ?thesis
  proof (cases "pc (sessions s ! t)")
    case Start
    show ?thesis using Start
      by (intro wake_inv_upd[OF I t run_Start[OF R Start]]) (simp_all add: resumed_def released_def act_def after_release_def split: variant.splits)
  next
    case AcqLock
    show ?thesis using AcqLock
      by (intro wake_inv_upd[OF I t run_AcqLock[OF R AcqLock]]) (simp_all add: resumed_def released_def act_def after_release_def split: variant.splits)
  next
    case AcqEnter
    show ?thesis using AcqEnter
      by (intro wake_inv_upd[OF I t run_AcqEnter[OF R AcqEnter]]) (simp_all add: resumed_def released_def act_def after_release_def split: variant.splits)
  next
    case AcqTest
    show ?thesis
    proof (cases "active s = cap")
      case True
      show ?thesis using AcqTest
        by (intro wake_inv_upd[OF I t run_AcqTest_full[OF R AcqTest True]]) (simp_all add: resumed_def released_def act_def after_release_def split: variant.splits)
    next
      case False
      show ?thesis using AcqTest
        by (intro wake_inv_upd[OF I t run_AcqTest_free[OF R AcqTest False]]) (simp_all add: resumed_def released_def act_def after_release_def split: variant.splits)
    qed
  next
    case Woken
    show ?thesis using Woken
      by (intro wake_inv_upd[OF I t run_Woken[OF R Woken]]) (simp_all add: resumed_def released_def act_def after_release_def split: variant.splits)
  next
    case AcqLeave
    show ?thesis using AcqLeave
      by (intro wake_inv_upd[OF I t run_AcqLeave[OF R AcqLeave]]) (simp_all add: resumed_def released_def act_def after_release_def split: variant.splits)
  next
    case AcqAdmit
    show ?thesis using AcqAdmit
      by (intro wake_inv_upd[OF I t run_AcqAdmit[OF R AcqAdmit]]) (simp_all add: resumed_def released_def act_def after_release_def split: variant.splits)
  next
    case AcqUnlock
    show ?thesis using AcqUnlock
      by (intro wake_inv_upd[OF I t run_AcqUnlock[OF R AcqUnlock]]) (simp_all add: resumed_def released_def act_def after_release_def split: variant.splits)
  next
    case Pump
    show ?thesis using Pump
      by (intro wake_inv_upd[OF I t run_Pump[OF R Pump]]) (simp_all add: resumed_def released_def act_def after_release_def split: variant.splits)
  next
    case LogOk
    show ?thesis using LogOk
      by (intro wake_inv_upd[OF I t run_LogOk[OF R LogOk]]) (simp_all add: resumed_def released_def act_def after_release_def split: variant.splits)
  next
    case LogErr
    show ?thesis
    proof (cases "err (sessions s ! t)")
      case None
      show ?thesis using run_LogErr_nil[OF R LogErr None] I by (simp add: wake_inv_def num_def)
    next
      case (Some m)
      show ?thesis using LogErr
        by (intro wake_inv_upd[OF I t run_LogErr[OF R LogErr Some]]) (simp_all add: resumed_def released_def act_def after_release_def split: variant.splits)
    qed
  next
    case TdStart
    show ?thesis using TdStart
      by (intro wake_inv_upd[OF I t run_TdStart[OF R TdStart]]) (simp_all add: resumed_def released_def act_def after_release_def split: variant.splits)
  next
    case CloseConn
    show ?thesis using CloseConn
      by (intro wake_inv_upd[OF I t run_CloseConn[OF R CloseConn]]) (simp_all add: resumed_def released_def act_def after_release_def split: variant.splits)
  next
    case CloseServer
    show ?thesis
    proof (cases "server (sessions s ! t) = SNil")
      case True
      show ?thesis using run_CloseServer_nil[OF R CloseServer True] I by (simp add: wake_inv_def num_def)
    next
      case False
      show ?thesis using CloseServer
        by (intro wake_inv_upd[OF I t run_CloseServer[OF R CloseServer False]]) (simp_all add: resumed_def released_def act_def after_release_def split: variant.splits)
    qed
  next
    case TdClosed
    show ?thesis using TdClosed
      by (intro wake_inv_upd[OF I t run_TdClosed[OF R TdClosed]]) (simp_all add: resumed_def released_def act_def after_release_def split: variant.splits)
  next
    case RelLock
    show ?thesis using RelLock
      by (intro wake_inv_upd[OF I t run_RelLock[OF R RelLock]]) (simp_all add: resumed_def released_def act_def after_release_def split: variant.splits)
  next
    case RelDec
    show ?thesis using RelDec
      by (intro wake_inv_upd[OF I t run_RelDec[OF R RelDec]]) (simp_all add: resumed_def released_def act_def after_release_def split: variant.splits)
  next
    case RelUnlock
    show ?thesis using RelUnlock
      by (intro wake_inv_upd[OF I t run_RelUnlock[OF R RelUnlock]]) (simp_all add: resumed_def released_def act_def after_release_def split: variant.splits)
  next
    case RelSignal
    show ?thesis using RelSignal
      by (intro wake_inv_upd[OF I t run_RelSignal[OF R RelSignal]]) (simp_all add: resumed_def released_def act_def after_release_def split: variant.splits)
  next
    case DeferClose
    show ?thesis using DeferClose
      by (intro wake_inv_upd[OF I t run_DeferClose[OF R DeferClose]]) (simp_all add: resumed_def released_def act_def after_release_def split: variant.splits)
  next
    case DeferLog
    show ?thesis using DeferLog
      by (intro wake_inv_upd[OF I t run_DeferLog[OF R DeferLog]]) (simp_all add: resumed_def released_def act_def after_release_def split: variant.splits)
  qed (use R in \<open>simp_all add: run_def\<close>)
qed

lemma dial_wake_inv:
  assumes I: "wake_inv s" and t: "t < length (sessions s)" and R: "dial v s t r = Some s'"
  shows "wake_inv s'"
proof -
  from R have P: "pc (sessions s ! t) = Dialing" by (simp add: dial_def split: if_splits)
  show ?thesis
  proof (cases r)
    case None
    with R P have E: "s' = upd s t (\<lambda>c. c\<lparr>pc := Pump, err := None, server := SOpen,
                              wg := (if v = Closure then wg c + 2 else wg c),
                              copyTo := TCopying, copyFrom := TCopying\<rparr>)"
      by (simp add: dial_def)
    show ?thesis using P
      by (intro wake_inv_upd[OF I t E]) (simp_all add: resumed_def released_def)
  next
    case (Some m)
    with R P have E: "s' = upd s t (\<lambda>c. c\<lparr>pc := (case v of Closure \<Rightarrow> RelLock | Struct \<Rightarrow> LogErr),
                              err := Some m, server := SNil\<rparr>)"
      by (simp add: dial_def)
    show ?thesis using P
      by (intro wake_inv_upd[OF I t E]) (simp_all add: resumed_def released_def split: variant.splits)
  qed
qed

lemma wake_wake_inv:
  assumes I: "wake_inv s" and t: "t < length (sessions s)" and R: "wake v s t u = Some s'"
  shows "wake_inv s'"
proof -
  from R have P: "pc (sessions s ! t) = RelSignal" and u: "u < length (sessions s)"
    and Q: "pc (sessions s ! u) = Parked"
    and E: "s' = upd (upd s u (\<lambda>c. c\<lparr>pc := Woken\<rparr>)) t (\<lambda>c. act Released (c\<lparr>pc := after_release v\<rparr>))"
    by (simp_all add: wake_def split: if_splits)
  define s1 where "s1 = upd s u (\<lambda>c. c\<lparr>pc := Woken\<rparr>)"
  have ne: "t \<noteq> u" using P Q by auto
  have t1: "t < length (sessions s1)" using t by (simp add: s1_def upd_def)
  have c1: "sessions s1 ! t = sessions s ! t" using ne u by (simp add: s1_def upd_def)
  have E1: "s' = upd s1 t (\<lambda>c. act Released (c\<lparr>pc := after_release v\<rparr>))"
    using E by (simp add: s1_def)
  have dw: "didWait (sessions s ! u)" using I u Q by (simp add: wake_inv_def)
  have r1: "num resumed s1 = num resumed s + 1"
    using num_upd[OF s1_def refl u, of resumed] Q dw by (simp add: resumed_def)
  have q1: "num released s1 = num released s"
    using num_upd[OF s1_def refl u, of released] Q by (simp add: released_def)
  have r2: "num resumed s' = num resumed s1"
    using num_upd[OF E1 refl t1, of resumed] P c1 by (simp add: resumed_def act_def after_release_def split: variant.splits)
  have q2: "num released s' = num released s1 + 1"
    using num_upd[OF E1 refl t1, of released] P c1 by (simp add: released_def act_def after_release_def split: variant.splits)
  have le: "num resumed s' \<le> num released s'" using r1 q1 r2 q2 I by (simp add: wake_inv_def)
  have pk: "\<forall>w < length (sessions s'). pc (sessions s' ! w) = Parked \<longrightarrow> didWait (sessions s' ! w)"
  proof (intro allI impI)
    fix w assume w: "w < length (sessions s')" and p: "pc (sessions s' ! w) = Parked"
    from w have wl: "w < length (sessions s)" by (simp add: E upd_def)
    have "w \<noteq> t" using p t wl by (auto simp: E upd_def act_def after_release_def split: variant.splits)
    moreover have "w \<noteq> u" using p u wl \<open>w \<noteq> t\<close> by (auto simp: E upd_def)
    ultimately have "sessions s' ! w = sessions s ! w" using wl by (simp add: E upd_def)
    with p I wl show "didWait (sessions s' ! w)" by (simp add: wake_inv_def)
  qed
  from le pk show ?thesis by (simp add: wake_inv_def)
qed

lemma copy_end_wake_inv:
  assumes I: "wake_inv s" and t: "t < length (sessions s)" and R: "copy_end s t d = Some s'"
  shows "wake_inv s'"
proof -
  from R have E: "s' = upd s t (set_task d TCopied)"
    by (simp add: copy_end_def split: if_splits)
  have D: "pc (sessions s ! t) = Parked \<longrightarrow> didWait (sessions s ! t)"
    using I t by (simp add: wake_inv_def)
  show ?thesis using D
    by (intro wake_inv_upd[OF I t E])
       (simp_all add: resumed_def released_def didWait_set_task pc_set_task)
qed

lemma copy_run_wake_inv:
  assumes I: "wake_inv s" and t: "t < length (sessions s)" and R: "copy_run v s t d = Some s'"
  shows "wake_inv s'"
proof (cases "wg (sessions s ! t) \<le> 0")
  case True
  with R have "s' = s\<lparr>crashed := True\<rparr>" by (simp add: copy_run_def Let_def split: if_splits)
  then show ?thesis using I by (simp add: wake_inv_def num_def)
next
  case False
  with R have E: "s' = upd s t (\<lambda>c. set_task d (case v of Closure \<Rightarrow> TFinished | Struct \<Rightarrow> TSending)
                              (c\<lparr>wg := wg c - 1\<rparr>))"
    by (simp add: copy_run_def Let_def split: if_splits)
  have D: "pc (sessions s ! t) = Parked \<longrightarrow> didWait (sessions s ! t)"
    using I t by (simp add: wake_inv_def)
  show ?thesis using D
    by (intro wake_inv_upd[OF I t E])
       (simp_all add: resumed_def released_def didWait_set_task pc_set_task)
qed

lemma recv_wake_inv:
  assumes I: "wake_inv s" and t: "t < length (sessions s)" and R: "recv v s t d = Some s'"
  shows "wake_inv s'"
proof -
  from R have E: "s' = upd s t (\<lambda>c. act MarkDone (set_task d TFinished (c\<lparr>pc := LogOk\<rparr>)))"
    and P: "pc (sessions s ! t) = Pump"
    by (simp_all add: recv_def Let_def split: if_splits)
  show ?thesis using P
    by (intro wake_inv_upd[OF I t E])
       (simp_all add: resumed_def released_def didWait_set_task pc_set_task pc_act act_def)
qed

lemma stats_sessions: "stats_run s k = Some s' \<Longrightarrow> sessions s' = sessions s"
  by (auto simp: stats_run_def Let_def split: spc.splits)

lemma step_wake_inv:
  assumes I: "wake_inv s" and R: "step v cap s e = Some s'"
  shows "wake_inv s'"
proof (cases e)
  case Accept
  with R have "s' = s\<lparr>sessions := sessions s @ [new_session]\<rparr>"
    by (simp add: step_def split: if_splits)
  then show ?thesis using I
    by (auto simp: wake_inv_def num_def nth_append new_session_def resumed_def released_def)
next
  case (Run t)
  with R I show ?thesis by (auto simp: step_def split: if_splits intro: run_wake_inv)
next
  case (DialRes t r)
  with R I show ?thesis by (auto simp: step_def split: if_splits intro: dial_wake_inv)
next
  case (Wake t u)
  with R I show ?thesis by (auto simp: step_def split: if_splits intro: wake_wake_inv)
next
  case (CopyEnd t d)
  with R I show ?thesis by (auto simp: step_def split: if_splits intro: copy_end_wake_inv)
next
  case (CopyRun t d)
  with R I show ?thesis by (auto simp: step_def split: if_splits intro: copy_run_wake_inv)
next
  case (Recv t d)
  with R I show ?thesis by (auto simp: step_def split: if_splits intro: recv_wake_inv)
next
  case StatsAccept
  with R have "s' = s\<lparr>conns := conns s @ [new_conn]\<rparr>"
    by (simp add: step_def split: if_splits)
  then show ?thesis using I by (simp add: wake_inv_def num_def)
next
  case (StatsRun k)
  with R have "sessions s' = sessions s" by (auto simp: step_def split: if_splits dest: stats_sessions)
  then show ?thesis using I by (simp add: wake_inv_def num_def)
qed

lemma exec_wake_inv:
  "wake_inv s \<Longrightarrow> exec v cap s es = Some s' \<Longrightarrow> wake_inv s'"
proof (induction es arbitrary: s)
  case Nil
  then show ?case by simp
next
  case (Cons e es)
  then show ?case by (auto split: option.splits dest: step_wake_inv)
qed

lemma init_wake_inv: "wake_inv init"
  by (simp add: wake_inv_def init_def num_def)











lemma run_counters:
  assumes "run v cap s t = Some s'"
  shows "(active s' = active s \<and> waiting s' = waiting s) \<or>
         (holds_lock (pc (sessions s ! t)) \<and> lock s' = lock s)"
  using assms
  by (cases "pc (sessions s ! t)"; cases v)
     (auto simp: run_def upd_def Let_def holds_lock_def split: if_splits option.splits)

lemma step_counters:
  assumes "step v cap s e = Some s'" "active s' \<noteq> active s \<or> waiting s' \<noteq> waiting s"
  shows "\<exists>t. e = Run t \<and> t < length (sessions s) \<and> holds_lock (pc (sessions s ! t)) \<and> lock s' = lock s"
proof (cases e)
  case (Run t)
  with assms show ?thesis using run_counters[of v cap s t s']
    by (auto simp: step_def split: if_splits)
next
  case (StatsRun k)
  with assms show ?thesis
    by (auto simp: step_def stats_run_def Let_def split: if_splits spc.splits)
qed (use assms in \<open>auto simp: step_def dial_def wake_def copy_end_def copy_run_def recv_def upd_def Let_def
        split: if_splits option.splits\<close>)

lemma run_crash:
  assumes "run v cap s t = Some s'"
  shows "crashed s' = crashed s \<or> (pc (sessions s ! t) = LogErr \<and> err (sessions s ! t) = None) \<or>
         (pc (sessions s ! t) = CloseServer \<and> server (sessions s ! t) = SNil)"
  using assms
  by (cases "pc (sessions s ! t)"; cases v)
     (auto simp: run_def upd_def Let_def split: if_splits option.splits)

lemma sess_ok_close_server:
  assumes "sess_ok v c" "pc c = CloseServer" "server c = SNil"
  shows "v = Struct \<and> err c \<noteq> None"
  using assms by (cases v; cases "err c") (simp_all add: okdefs)

lemma sess_ok_log_err:
  assumes "sess_ok v c" "pc c = LogErr"
  shows "err c \<noteq> None"
  using assms by (cases v; cases "err c") (simp_all add: okdefs)

lemma cnt_split:
  assumes "\<And>p. P p = (Q p \<or> R p)" "\<And>p. \<not> (Q p \<and> R p)"
  shows "cnt P cs = cnt Q cs + cnt R cs"
  using assms by (induction cs) (auto simp: cnt_def)

lemma num_mono:
  assumes "\<And>c. P c \<Longrightarrow> Q c"
  shows "num P s \<le> num Q s"
proof -
  have "length (filter P cs) \<le> length (filter Q cs)" for cs
    using assms by (induction cs) auto
  then show ?thesis by (simp add: num_def)
qed

lemma num_parked_zero: "\<not> list_ex parked (sessions s) \<Longrightarrow> num parked s = 0"
  by (simp add: num_def list_ex_iff filter_empty_conv)

lemma cnt_pos:
  assumes "t < length cs" "P (pc (cs ! t))"
  shows "1 \<le> cnt P cs"
proof -
  from assms have "cs ! t \<in> set cs" "P (pc (cs ! t))" by simp_all
  then have "filter (\<lambda>c. P (pc c)) cs \<noteq> []" by (auto simp: filter_empty_conv)
  then show ?thesis by (cases "filter (\<lambda>c. P (pc c)) cs") (simp_all add: cnt_def)
qed

lemma num_parked_pos: "list_ex parked (sessions s) \<Longrightarrow> 0 < num parked s"
  by (simp add: num_def list_ex_iff filter_empty_conv)

lemma run_signal_effect:
  assumes t: "t < length (sessions s)" and p: "pc (sessions s ! t) = RelSignal"
    and R: "run v cap s t = Some s'"
  shows "num parked s = 0 \<and> num parked s' = 0 \<and>
         num (\<lambda>c. pc c = Woken) s' = num (\<lambda>c. pc c = Woken) s"
proof -
  let ?f = "\<lambda>c. act Released (c\<lparr>pc := after_release v\<rparr>)"
  have nf: "\<not> parked (?f c)" "pc (?f c) \<noteq> Woken" for c
    by (cases v; simp add: parked_def act_def after_release_def)+
  note E = run_RelSignal[OF R p]
  from run_RelSignal_guard[OF R p] have z: "num parked s = 0" by (rule num_parked_zero)
  from num_upd[OF E refl t, of parked] p nf have "num parked s' = num parked s"
    by (simp add: parked_def)
  moreover from num_upd[OF E refl t, of "\<lambda>c. pc c = Woken"] p nf
  have "num (\<lambda>c. pc c = Woken) s' = num (\<lambda>c. pc c = Woken) s" by simp
  ultimately show ?thesis using z by simp
qed

lemma wake_signal_effect:
  assumes t: "t < length (sessions s)" and W: "wake v s t u = Some s'"
  shows "num parked s' + 1 = num parked s \<and>
         num (\<lambda>c. pc c = Woken) s' = num (\<lambda>c. pc c = Woken) s + 1"
proof -
  let ?f = "\<lambda>c. act Released (c\<lparr>pc := after_release v\<rparr>)"
  have nf: "\<not> parked (?f c)" "pc (?f c) \<noteq> Woken" for c
    by (cases v; simp add: parked_def act_def after_release_def)+
  from W have p: "pc (sessions s ! t) = RelSignal" and u: "u < length (sessions s)"
    and q: "pc (sessions s ! u) = Parked"
    and E: "s' = upd (upd s u (\<lambda>c. c\<lparr>pc := Woken\<rparr>)) t ?f"
    by (simp_all add: wake_def split: if_splits)
  define s1 where "s1 = upd s u (\<lambda>c. c\<lparr>pc := Woken\<rparr>)"
  have ne: "t \<noteq> u" using p q by auto
  have t1: "t < length (sessions s1)" using t by (simp add: s1_def upd_def)
  have c1: "sessions s1 ! t = sessions s ! t" using ne u by (simp add: s1_def upd_def)
  have E1: "s' = upd s1 t ?f" using E by (simp add: s1_def)
  from num_upd[OF s1_def refl u, of parked] q
  have p1: "num parked s1 + 1 = num parked s" by (simp add: parked_def)
  from num_upd[OF s1_def refl u, of "\<lambda>c. pc c = Woken"] q
  have w1: "num (\<lambda>c. pc c = Woken) s1 = num (\<lambda>c. pc c = Woken) s + 1" by simp
  from num_upd[OF E1 refl t1, of parked] p c1 nf
  have p2: "num parked s' = num parked s1" by (simp add: parked_def)
  from num_upd[OF E1 refl t1, of "\<lambda>c. pc c = Woken"] p c1 nf
  have w2: "num (\<lambda>c. pc c = Woken) s' = num (\<lambda>c. pc c = Woken) s1" by simp
  from p1 w1 p2 w2 show ?thesis by simp
qed


lemma slot_inv_upd:
  assumes I: "slot_inv cap s" and t: "t < length (sessions s)"
    and E: "s' = upd s0 t f" and S0: "sessions s0 = sessions s"
    and N: "pc (sessions s ! t) \<noteq> Parked"
    and P: "pc (f (sessions s ! t)) = Parked \<longrightarrow> active s0 = cap"
    and Q: "pc (f (sessions s ! t)) \<noteq> Parked \<longrightarrow>
            active s + (if on_the_way (pc (sessions s ! t)) then 1 else 0)
              \<le> active s0 + (if on_the_way (pc (f (sessions s ! t))) then 1 else 0)"
  shows "slot_inv cap s'"
proof (cases "pc (f (sessions s ! t)) = Parked")
  case True
  with P have "active s' = cap" by (simp add: E upd_def)
  then show ?thesis using cnt_nonneg[of on_the_way "sessions s'"] by (simp add: slot_inv_def)
next
  case False
  from num_upd[OF E S0 t, of parked] N False have n: "num parked s' = num parked s"
    by (simp add: parked_def)
  have c: "cnt on_the_way (sessions s') =
           cnt on_the_way (sessions s) - (if on_the_way (pc (sessions s ! t)) then 1 else 0)
             + (if on_the_way (pc (f (sessions s ! t))) then 1 else 0)"
    using t by (simp add: E upd_def S0 cnt_upd)
  have a: "active s' = active s0" by (simp add: E upd_def)
  show ?thesis unfolding slot_inv_def
  proof
    assume "0 < num parked s'"
    with n I have "cap - active s \<le> cnt on_the_way (sessions s)" by (simp add: slot_inv_def)
    with Q False c a show "cap - active s' \<le> cnt on_the_way (sessions s')"
      by (auto split: if_splits)
  qed
qed

lemma slot_inv_none:
  assumes t: "t < length (sessions s)" and E: "s' = upd s0 t f" and S0: "sessions s0 = sessions s"
    and Z: "num parked s = 0" and N: "\<not> parked (f (sessions s ! t))"
  shows "slot_inv cap s'"
proof -
  from num_upd[OF E S0 t, of parked] Z N have "num parked s' = 0" by (simp split: if_splits)
  then show ?thesis by (simp add: slot_inv_def)
qed

lemma map_pc_upd:
  assumes "t < length cs" "pc y = pc (cs ! t)"
  shows "map pc (cs[t := y]) = map pc cs"
  using assms by (simp add: list_eq_iff_nth_eq nth_list_update)

lemma slot_inv_pcs:
  assumes I: "slot_inv cap s" and M: "map pc (sessions s') = map pc (sessions s)"
    and A: "active s' = active s"
  shows "slot_inv cap s'"
proof -
  have f: "length (filter (\<lambda>c. P (pc c)) cs) = length (filter P (map pc cs))" for P and cs :: "session list"
    by (simp add: filter_map comp_def)
  have pk: "parked = (\<lambda>c. pc c = Parked)" by (simp add: fun_eq_iff parked_def)
  have "num parked s' = num parked s"
    using f[of "\<lambda>p. p = Parked" "sessions s'"] f[of "\<lambda>p. p = Parked" "sessions s"] M
    by (simp add: num_def pk)
  moreover have "cnt on_the_way (sessions s') = cnt on_the_way (sessions s)"
    using f[of on_the_way "sessions s'"] f[of on_the_way "sessions s"] M by (simp add: cnt_def)
  ultimately show ?thesis using I A by (simp add: slot_inv_def)
qed

lemma run_slot_inv:
  assumes I: "slot_inv cap s" and t: "t < length (sessions s)" and R: "run v cap s t = Some s'"
  shows "slot_inv cap s'"
proof -
  show ?thesis
  proof (cases "pc (sessions s ! t)")
    case Start
    show ?thesis using Start
      by (intro slot_inv_upd[OF I t run_Start[OF R Start]]) (simp_all add: on_the_way_def act_def split: variant.splits)
  next
    case AcqLock
    show ?thesis using AcqLock
      by (intro slot_inv_upd[OF I t run_AcqLock[OF R AcqLock]]) (simp_all add: on_the_way_def act_def split: variant.splits)
  next
    case AcqEnter
    show ?thesis using AcqEnter
      by (intro slot_inv_upd[OF I t run_AcqEnter[OF R AcqEnter]]) (simp_all add: on_the_way_def act_def split: variant.splits)
  next
    case AcqTest
    show ?thesis
    proof (cases "active s = cap")
      case True
      show ?thesis using AcqTest True
        by (intro slot_inv_upd[OF I t run_AcqTest_full[OF R AcqTest True]]) (simp_all add: on_the_way_def act_def split: variant.splits)
    next
      case False
      show ?thesis using AcqTest False
        by (intro slot_inv_upd[OF I t run_AcqTest_free[OF R AcqTest False]]) (simp_all add: on_the_way_def act_def split: variant.splits)
    qed
  next
    case Woken
    show ?thesis using Woken
      by (intro slot_inv_upd[OF I t run_Woken[OF R Woken]]) (simp_all add: on_the_way_def act_def split: variant.splits)
  next
    case AcqLeave
    show ?thesis using AcqLeave
      by (intro slot_inv_upd[OF I t run_AcqLeave[OF R AcqLeave]]) (simp_all add: on_the_way_def act_def split: variant.splits)
  next
    case AcqAdmit
    show ?thesis using AcqAdmit
      by (intro slot_inv_upd[OF I t run_AcqAdmit[OF R AcqAdmit]]) (simp_all add: on_the_way_def act_def split: variant.splits)
  next
    case AcqUnlock
    show ?thesis using AcqUnlock
      by (intro slot_inv_upd[OF I t run_AcqUnlock[OF R AcqUnlock]]) (simp_all add: on_the_way_def act_def split: variant.splits)
  next
    case Pump
    show ?thesis using Pump
      by (intro slot_inv_upd[OF I t run_Pump[OF R Pump]]) (simp_all add: on_the_way_def act_def split: variant.splits)
  next
    case LogOk
    show ?thesis using LogOk
      by (intro slot_inv_upd[OF I t run_LogOk[OF R LogOk]]) (simp_all add: on_the_way_def act_def split: variant.splits)
  next
    case LogErr
    show ?thesis
    proof (cases "err (sessions s ! t)")
      case None
      show ?thesis using run_LogErr_nil[OF R LogErr None] I by (simp add: slot_inv_def num_def)
    next
      case (Some m)
      show ?thesis using LogErr Some
        by (intro slot_inv_upd[OF I t run_LogErr[OF R LogErr Some]]) (simp_all add: on_the_way_def act_def split: variant.splits)
    qed
  next
    case TdStart
    show ?thesis using TdStart
      by (intro slot_inv_upd[OF I t run_TdStart[OF R TdStart]]) (simp_all add: on_the_way_def act_def split: variant.splits)
  next
    case CloseConn
    show ?thesis using CloseConn
      by (intro slot_inv_upd[OF I t run_CloseConn[OF R CloseConn]]) (simp_all add: on_the_way_def act_def split: variant.splits)
  next
    case CloseServer
    show ?thesis
    proof (cases "server (sessions s ! t) = SNil")
      case True
      show ?thesis using run_CloseServer_nil[OF R CloseServer True] I by (simp add: slot_inv_def num_def)
    next
      case False
      show ?thesis using CloseServer False
        by (intro slot_inv_upd[OF I t run_CloseServer[OF R CloseServer False]]) (simp_all add: on_the_way_def act_def split: variant.splits)
    qed
  next
    case TdClosed
    show ?thesis using TdClosed
      by (intro slot_inv_upd[OF I t run_TdClosed[OF R TdClosed]]) (simp_all add: on_the_way_def act_def split: variant.splits)
  next
    case RelLock
    show ?thesis using RelLock
      by (intro slot_inv_upd[OF I t run_RelLock[OF R RelLock]]) (simp_all add: on_the_way_def act_def split: variant.splits)
  next
    case RelDec
    show ?thesis using RelDec
      by (intro slot_inv_upd[OF I t run_RelDec[OF R RelDec]]) (simp_all add: on_the_way_def act_def split: variant.splits)
  next
    case RelUnlock
    show ?thesis using RelUnlock
      by (intro slot_inv_upd[OF I t run_RelUnlock[OF R RelUnlock]]) (simp_all add: on_the_way_def act_def split: variant.splits)
  next
    case RelSignal
    show ?thesis using num_parked_zero[OF run_RelSignal_guard[OF R RelSignal]]
      by (intro slot_inv_none[OF t run_RelSignal[OF R RelSignal]]) (simp_all add: parked_def act_def after_release_def RelSignal split: variant.splits)
  next
    case DeferClose
    show ?thesis using DeferClose
      by (intro slot_inv_upd[OF I t run_DeferClose[OF R DeferClose]]) (simp_all add: on_the_way_def act_def split: variant.splits)
  next
    case DeferLog
    show ?thesis using DeferLog
      by (intro slot_inv_upd[OF I t run_DeferLog[OF R DeferLog]]) (simp_all add: on_the_way_def act_def split: variant.splits)
  qed (use R in \<open>simp_all add: run_def\<close>)
qed

lemma dial_slot_inv:
  assumes I: "slot_inv cap s" and t: "t < length (sessions s)" and R: "dial v s t r = Some s'"
  shows "slot_inv cap s'"
proof -
  from R have P: "pc (sessions s ! t) = Dialing" by (simp add: dial_def split: if_splits)
  show ?thesis
  proof (cases r)
    case None
    with R P have E: "s' = upd s t (\<lambda>c. c\<lparr>pc := Pump, err := None, server := SOpen,
                              wg := (if v = Closure then wg c + 2 else wg c),
                              copyTo := TCopying, copyFrom := TCopying\<rparr>)"
      by (simp add: dial_def)
    show ?thesis using P
      by (intro slot_inv_upd[OF I t E]) (simp_all add: on_the_way_def)
  next
    case (Some m)
    with R P have E: "s' = upd s t (\<lambda>c. c\<lparr>pc := (case v of Closure \<Rightarrow> RelLock | Struct \<Rightarrow> LogErr),
                              err := Some m, server := SNil\<rparr>)"
      by (simp add: dial_def)
    show ?thesis using P
      by (intro slot_inv_upd[OF I t E]) (simp_all add: on_the_way_def split: variant.splits)
  qed
qed

lemma wake_slot_inv:
  assumes I: "slot_inv cap s" and t: "t < length (sessions s)" and R: "wake v s t u = Some s'"
  shows "slot_inv cap s'"
proof -
  let ?f = "\<lambda>c. act Released (c\<lparr>pc := after_release v\<rparr>)"
  from R have P: "pc (sessions s ! t) = RelSignal" and u: "u < length (sessions s)"
    and Q: "pc (sessions s ! u) = Parked"
    and E: "s' = upd (upd s u (\<lambda>c. c\<lparr>pc := Woken\<rparr>)) t ?f"
    by (simp_all add: wake_def split: if_splits)
  define s1 where "s1 = upd s u (\<lambda>c. c\<lparr>pc := Woken\<rparr>)"
  have ne: "t \<noteq> u" using P Q by auto
  have t1: "t < length (sessions s1)" using t by (simp add: s1_def upd_def)
  have c1: "sessions s1 ! t = sessions s ! t" using ne u by (simp add: s1_def upd_def)
  have E1: "s' = upd s1 t ?f" using E by (simp add: s1_def)
  have nf: "pc (?f c) \<noteq> Parked" "\<not> on_the_way (pc (?f c))" for c
    by (cases v; simp add: act_def after_release_def on_the_way_def)+
  from num_upd[OF s1_def refl u, of parked] Q
  have p1: "num parked s1 + 1 = num parked s" by (simp add: parked_def)
  from num_upd[OF E1 refl t1, of parked] P c1 nf
  have p2: "num parked s' = num parked s1" by (simp add: parked_def)
  have k1: "cnt on_the_way (sessions s1) = cnt on_the_way (sessions s) + 1"
    using u Q by (simp add: s1_def upd_def cnt_upd on_the_way_def)
  have k2: "cnt on_the_way (sessions s') = cnt on_the_way (sessions s1) - 1"
    using t1 P c1 nf by (simp add: E1 upd_def cnt_upd on_the_way_def)
  have a: "active s' = active s" by (simp add: E upd_def)
  from p1 have "0 < num parked s" by simp
  with I have "cap - active s \<le> cnt on_the_way (sessions s)" by (simp add: slot_inv_def)
  with k1 k2 a show ?thesis by (simp add: slot_inv_def)
qed

lemma copy_end_slot_inv:
  assumes I: "slot_inv cap s" and t: "t < length (sessions s)" and R: "copy_end s t d = Some s'"
  shows "slot_inv cap s'"
proof -
  from R have E: "s' = upd s t (set_task d TCopied)"
    by (simp add: copy_end_def split: if_splits)
  show ?thesis
    by (rule slot_inv_pcs[OF I]) (simp_all add: E upd_def map_pc_upd[OF t] pc_set_task)
qed

lemma copy_run_slot_inv:
  assumes I: "slot_inv cap s" and t: "t < length (sessions s)" and R: "copy_run v s t d = Some s'"
  shows "slot_inv cap s'"
proof (cases "wg (sessions s ! t) \<le> 0")
  case True
  with R have "s' = s\<lparr>crashed := True\<rparr>" by (simp add: copy_run_def Let_def split: if_splits)
  then show ?thesis by (intro slot_inv_pcs[OF I]) simp_all
next
  case False
  with R have E: "s' = upd s t (\<lambda>c. set_task d (case v of Closure \<Rightarrow> TFinished | Struct \<Rightarrow> TSending)
                              (c\<lparr>wg := wg c - 1\<rparr>))"
    by (simp add: copy_run_def Let_def split: if_splits)
  show ?thesis
    by (rule slot_inv_pcs[OF I]) (simp_all add: E upd_def map_pc_upd[OF t] pc_set_task)
qed

lemma recv_slot_inv:
  assumes I: "slot_inv cap s" and t: "t < length (sessions s)" and R: "recv v s t d = Some s'"
  shows "slot_inv cap s'"
proof -
  from R have E: "s' = upd s t (\<lambda>c. act MarkDone (set_task d TFinished (c\<lparr>pc := LogOk\<rparr>)))"
    and P: "pc (sessions s ! t) = Pump"
    by (simp_all add: recv_def Let_def split: if_splits)
  show ?thesis using P
    by (intro slot_inv_upd[OF I t E]) (simp_all add: on_the_way_def pc_set_task pc_act)
qed

lemma step_slot_inv:
  assumes I: "slot_inv cap s" and R: "step v cap s e = Some s'"
  shows "slot_inv cap s'"
proof (cases e)
  case Accept
  with R have "s' = s\<lparr>sessions := sessions s @ [new_session]\<rparr>"
    by (simp add: step_def split: if_splits)
  then show ?thesis using I
    by (simp add: slot_inv_def num_def cnt_snoc new_session_def parked_def on_the_way_def)
next
  case (Run t)
  with R I show ?thesis by (auto simp: step_def split: if_splits intro: run_slot_inv)
next
  case (DialRes t r)
  with R I show ?thesis by (auto simp: step_def split: if_splits intro: dial_slot_inv)
next
  case (Wake t u)
  with R I show ?thesis by (auto simp: step_def split: if_splits intro: wake_slot_inv)
next
  case (CopyEnd t d)
  with R I show ?thesis by (auto simp: step_def split: if_splits intro: copy_end_slot_inv)
next
  case (CopyRun t d)
  with R I show ?thesis by (auto simp: step_def split: if_splits intro: copy_run_slot_inv)
next
  case (Recv t d)
  with R I show ?thesis by (auto simp: step_def split: if_splits intro: recv_slot_inv)
next
  case StatsAccept
  with R have "s' = s\<lparr>conns := conns s @ [new_conn]\<rparr>"
    by (simp add: step_def split: if_splits)
  then show ?thesis by (intro slot_inv_pcs[OF I]) simp_all
next
  case (StatsRun k)
  with R have "sessions s' = sessions s" "active s' = active s"
    by (auto simp: step_def stats_run_def Let_def split: if_splits spc.splits)
  then show ?thesis by (intro slot_inv_pcs[OF I]) simp_all
qed

lemma exec_slot_inv:
  "slot_inv cap s \<Longrightarrow> exec v cap s es = Some s' \<Longrightarrow> slot_inv cap s'"
proof (induction es arbitrary: s)
  case Nil
  then show ?case by simp
next
  case (Cons e es)
  then show ?case by (auto split: option.splits dest: step_slot_inv)
qed

lemma cnt_le_length: "cnt P cs \<le> int (length cs)"
  by (simp add: cnt_def)


section \<open>Reachable states\<close>

lemmas ev = exec.simps step_def run_def dial_def wake_def copy_end_def copy_run_def recv_def
  stats_run_def upd_def act_def init_def new_session_def new_conn_def Let_def set_task_def
  task_of_def after_release_def parked_def acquire_def

lemma reach_gate_inv:
  assumes "0 \<le> cap" "exec v cap init es = Some s"
  shows "gate_inv cap s"
  using exec_gate_inv[OF init_gate_inv[OF assms(1)] assms(2)] .

lemma reach_all_ok:
  assumes "exec v cap init es = Some s"
  shows "all_ok v s"
  using exec_all_ok[OF init_all_ok assms] .

lemma reach_wake_inv:
  assumes "exec v cap init es = Some s"
  shows "wake_inv s"
  using exec_wake_inv[OF init_wake_inv assms] .


lemma reach_sess_ok:
  assumes "exec v cap init es = Some s" "t < length (sessions s)"
  shows "sess_ok v (sessions s ! t)"
  using reach_all_ok[OF assms(1)] assms(2) by (simp add: all_ok_def)

lemma sess_ok_pump:
  assumes "sess_ok v c" "pc c = Pump"
  shows "err c = None" "hist c = [Acquired]" "wg c = pend (copyTo c) + pend (copyFrom c)"
    "copyTo c \<noteq> TNone" "copyFrom c \<noteq> TNone"
    "v = Closure \<Longrightarrow> copyTo c \<noteq> TSending \<and> copyFrom c \<noteq> TSending"
  using assms by (cases v; cases "err c"; simp add: okdefs)+


lemma sess_ok_tasks:
  assumes "sess_ok Struct c"
  shows "\<not> (copyTo c = TFinished \<and> copyFrom c = TFinished)"
    "pc c = Done \<Longrightarrow> (copyTo c = TFinished) \<noteq> (copyFrom c = TFinished)"
  using assms by (cases "err c"; auto simp: okdefs split: if_splits)+

lemma sess_ok_copied_wg:
  assumes "sess_ok v c" "task_of d c = TCopied"
  shows "0 < wg c"
  using assms tasks_ok_done[of v c d] by (simp add: sess_ok_def)

lemma panic_only_on_nil_close:
  assumes A: "all_ok v s" and nc: "\<not> crashed s" and st: "step v cap s e = Some s'"
    and c: "crashed s'"
  shows "v = Struct \<and>
         (\<exists>t. e = Run t \<and> t < length (sessions s) \<and> pc (sessions s ! t) = CloseServer \<and>
              server (sessions s ! t) = SNil \<and> err (sessions s ! t) \<noteq> None)"
proof (cases e)
  case (Run t)
  with st have t: "t < length (sessions s)" and R: "run v cap s t = Some s'"
    by (simp_all add: step_def split: if_splits)
  from A t have K: "sess_ok v (sessions s ! t)" by (simp add: all_ok_def)
  from run_crash[OF R] nc c sess_ok_log_err[OF K]
  have "pc (sessions s ! t) = CloseServer \<and> server (sessions s ! t) = SNil" by auto
  with sess_ok_close_server[OF K] Run t show ?thesis by simp
next
  case (CopyRun t d)
  with st have t: "t < length (sessions s)" and R: "copy_run v s t d = Some s'"
    by (simp_all add: step_def split: if_splits)
  from A t have K: "sess_ok v (sessions s ! t)" by (simp add: all_ok_def)
  from R have "task_of d (sessions s ! t) = TCopied"
    by (simp add: copy_run_def Let_def split: if_splits)
  from sess_ok_copied_wg[OF K this] R nc c show ?thesis
    by (auto simp: copy_run_def Let_def upd_def split: if_splits)
next
  case (StatsRun k)
  with st nc c show ?thesis
    by (auto simp: step_def stats_run_def Let_def split: if_splits spc.splits)
qed (use st nc c in \<open>auto simp: step_def dial_def wake_def copy_end_def recv_def upd_def Let_def
        split: if_splits option.splits\<close>)

lemma closure_never_panics:
  assumes "all_ok Closure s" "\<not> crashed s" "exec Closure cap s es = Some s'"
  shows "\<not> crashed s'"
  using assms
proof (induction es arbitrary: s)
  case Nil
  then show ?case by simp
next
  case (Cons e es)
  from Cons.prems(3) obtain s1 where s1: "step Closure cap s e = Some s1"
    and r: "exec Closure cap s1 es = Some s'" by (auto split: option.splits)
  from panic_only_on_nil_close[OF Cons.prems(1,2) s1] have "\<not> crashed s1" by auto
  from Cons.IH[OF step_all_ok[OF Cons.prems(1) s1] this r] show ?case .
qed

lemma reach_slot_inv:
  assumes "exec v cap init es = Some s"
  shows "slot_inv cap s"
proof -
  have "slot_inv cap init" by (simp add: slot_inv_def init_def num_def)
  from exec_slot_inv[OF this assms] show ?thesis .
qed

text \<open>Each counter is at most the number of sessions started so far.\<close>

lemma counters_at_most_sessions:
  assumes "0 \<le> cap" "exec v cap init es = Some s"
  shows "active s \<le> int (length (sessions s))" "waiting s \<le> int (length (sessions s))"
  using reach_gate_inv[OF assms] cnt_le_length[of is_active "sessions s"]
    cnt_le_length[of in_wait "sessions s"]
  by (simp_all add: gate_inv_def)






section \<open>The claims\<close>

text \<open>
  \<^bold>\<open>C1.\<close>  In every state that the process can reach, with any number of sessions and any
  capacity of at least 1, \<open>0 \<le> active \<le> capacity\<close> and \<open>0 \<le> waiting\<close>; and a step that
  changes \<open>active\<close> or \<open>waiting\<close> is a step of a session that holds the lock of \<^verbatim>\<open>wCond\<close>
  before and after it.
\<close>

theorem gate_counters_invariant:
  assumes cap: "1 \<le> cap" and ex: "exec v cap init es = Some s"
  shows "0 \<le> active s \<and> active s \<le> cap \<and> 0 \<le> waiting s \<and>
         (\<forall>e s'. step v cap s e = Some s' \<and> (active s' \<noteq> active s \<or> waiting s' \<noteq> waiting s)
            \<longrightarrow> (\<exists>t. e = Run t \<and> lock s = Some t \<and> lock s' = Some t))"
proof -
  from cap have "0 \<le> cap" by simp
  from reach_gate_inv[OF this ex] have G: "gate_inv cap s" .
  have a: "0 \<le> active s" using G cnt_nonneg[of is_active "sessions s"] by (simp add: gate_inv_def)
  have w: "0 \<le> waiting s" using G cnt_nonneg[of in_wait "sessions s"] by (simp add: gate_inv_def)
  have c: "active s \<le> cap" using G by (simp add: gate_inv_def)
  have m: "\<exists>t. e = Run t \<and> lock s = Some t \<and> lock s' = Some t"
    if "step v cap s e = Some s' \<and> (active s' \<noteq> active s \<or> waiting s' \<noteq> waiting s)" for e s'
  proof -
    from that step_counters[of v cap s e s'] obtain t where
      t: "e = Run t" "t < length (sessions s)" "holds_lock (pc (sessions s ! t))" "lock s' = lock s"
      by blast
    with G have "lock s = Some t" by (simp add: gate_inv_def)
    with t show ?thesis by simp
  qed
  from a w c m show ?thesis by blast
qed

theorem gate_counters_invariant_witness:
  "(1::int) \<le> 2 \<and> exec Struct 2 init stats_probe \<noteq> None \<and>
   active (the (exec Struct 2 init stats_probe)) = 2 \<and>
   waiting (the (exec Struct 2 init stats_probe)) = 1 \<and>
   0 \<le> active (the (exec Struct 2 init stats_probe)) \<and>
   active (the (exec Struct 2 init stats_probe)) \<le> 2 \<and>
   0 \<le> waiting (the (exec Struct 2 init stats_probe))"
proof -
  have c: "(1::int) \<le> 2" by simp
  obtain s where e: "exec Struct 2 init stats_probe = Some s"
    by (simp add: ev stats_probe_def)
  have v: "active s = 2" "waiting s = 1" using e by (auto simp: ev stats_probe_def)
  from gate_counters_invariant[OF c e] v e show ?thesis by simp
qed

text \<open>
  \<^bold>\<open>C3.\<close>  \<^verbatim>\<open>pre()\<close> / \<^verbatim>\<open>setup()\<close> as Acquire.  In every reachable state (capacity at
  least 1): \<open>waiting\<close> is the number of sessions between their \<^verbatim>\<open>waiting++\<close> and their
  \<^verbatim>\<open>waiting--\<close>, which includes every session blocked in \<^verbatim>\<open>Wait()\<close> and none that has
  returned.  Every step of the call is there and does what the source says: \<^verbatim>\<open>Lock()\<close> is
  taken exactly when the lock is free; \<^verbatim>\<open>waiting++\<close> follows; at the loop test the caller
  holds the lock and goes on exactly when \<open>active < capacity\<close>, otherwise it releases the
  lock and parks.  A parked caller has no step of its own; the \<^verbatim>\<open>Signal\<close> of any releasing
  session can wake it, and nothing else does.  A woken caller takes the lock when it is free
  and tests again.  From the successful test to the increment the caller holds the lock and
  \<open>active < capacity\<close>; \<^verbatim>\<open>waiting--\<close> and \<^verbatim>\<open>active++\<close> change the counters by exactly one;
  then the deferred \<^verbatim>\<open>Unlock()\<close> runs, the lock is free and the call has returned.
\<close>

theorem acquire_contract:
  assumes cap: "1 \<le> cap" and ex: "exec v cap init es = Some s" and t: "t < length (sessions s)"
  shows "waiting s = cnt in_wait (sessions s) \<and>
         (\<not> crashed s \<longrightarrow>
            step v cap s (Run t) = run v cap s t \<and>
            (\<forall>u < length (sessions s). step v cap s (Wake u t) = wake v s u t)) \<and>
         (pc (sessions s ! t) = AcqLock \<longrightarrow>
            (lock s \<noteq> None \<longrightarrow> run v cap s t = None) \<and>
            (lock s = None \<longrightarrow>
               (\<exists>s'. run v cap s t = Some s' \<and> lock s' = Some t \<and> active s' = active s \<and>
                     waiting s' = waiting s \<and> pc (sessions s' ! t) = AcqEnter))) \<and>
         (pc (sessions s ! t) = AcqEnter \<longrightarrow>
            lock s = Some t \<and>
            (\<exists>s'. run v cap s t = Some s' \<and> lock s' = Some t \<and> active s' = active s \<and>
                  waiting s' = waiting s + 1 \<and> pc (sessions s' ! t) = AcqTest)) \<and>
         (pc (sessions s ! t) = AcqTest \<longrightarrow>
            lock s = Some t \<and>
            (\<exists>s'. run v cap s t = Some s' \<and> active s' = active s \<and> waiting s' = waiting s \<and>
                  lock s' = (if active s < cap then Some t else None) \<and>
                  pc (sessions s' ! t) = (if active s < cap then AcqLeave else Parked))) \<and>
         (pc (sessions s ! t) = Parked \<longrightarrow>
            run v cap s t = None \<and>
            (\<forall>u. pc (sessions s ! u) \<noteq> RelSignal \<longrightarrow> wake v s u t = None) \<and>
            (\<forall>u < length (sessions s). pc (sessions s ! u) = RelSignal \<longrightarrow>
               (\<exists>s'. wake v s u t = Some s' \<and> active s' = active s \<and> waiting s' = waiting s \<and>
                     lock s' = lock s \<and> pc (sessions s' ! t) = Woken))) \<and>
         (pc (sessions s ! t) = Woken \<longrightarrow>
            (lock s \<noteq> None \<longrightarrow> run v cap s t = None) \<and>
            (lock s = None \<longrightarrow>
               (\<exists>s'. run v cap s t = Some s' \<and> lock s' = Some t \<and> active s' = active s \<and>
                     waiting s' = waiting s \<and> pc (sessions s' ! t) = AcqTest))) \<and>
         (pc (sessions s ! t) = AcqLeave \<longrightarrow>
            active s < cap \<and> lock s = Some t \<and>
            (\<exists>s'. run v cap s t = Some s' \<and> lock s' = Some t \<and> active s' = active s \<and>
                  waiting s' = waiting s - 1 \<and> pc (sessions s' ! t) = AcqAdmit)) \<and>
         (pc (sessions s ! t) = AcqAdmit \<longrightarrow>
            active s < cap \<and> lock s = Some t \<and>
            (\<exists>s'. run v cap s t = Some s' \<and> active s' = active s + 1 \<and> waiting s' = waiting s \<and>
                  lock s' = Some t \<and> pc (sessions s' ! t) = AcqUnlock)) \<and>
         (pc (sessions s ! t) = AcqUnlock \<longrightarrow>
            lock s = Some t \<and>
            (\<exists>s'. run v cap s t = Some s' \<and> lock s' = None \<and> active s' = active s \<and>
                  waiting s' = waiting s \<and> pc (sessions s' ! t) = Dialing \<and>
                  hist (sessions s' ! t) = hist (sessions s ! t) @ [Acquired]))"
proof -
  from cap have "0 \<le> cap" by simp
  from reach_gate_inv[OF this ex] have G: "gate_inv cap s" .
  have w: "waiting s = cnt in_wait (sessions s)" using G by (simp add: gate_inv_def)
  have le: "active s \<le> cap" using G by (simp add: gate_inv_def)
  have own: "holds_lock (pc (sessions s ! t)) \<Longrightarrow> lock s = Some t"
    using G t by (simp add: gate_inv_def)
  have lt: "pc (sessions s ! t) \<in> {AcqLeave, AcqAdmit} \<Longrightarrow> active s < cap"
    using G t by (auto simp: gate_inv_def)
  have st: "\<not> crashed s \<longrightarrow>
            step v cap s (Run t) = run v cap s t \<and>
            (\<forall>u < length (sessions s). step v cap s (Wake u t) = wake v s u t)"
    using t by (simp add: step_def)
  have p1: "pc (sessions s ! t) = AcqLock \<longrightarrow>
            (lock s \<noteq> None \<longrightarrow> run v cap s t = None) \<and>
            (lock s = None \<longrightarrow>
               (\<exists>s'. run v cap s t = Some s' \<and> lock s' = Some t \<and> active s' = active s \<and>
                     waiting s' = waiting s \<and> pc (sessions s' ! t) = AcqEnter))"
    using t by (auto simp: run_def upd_def Let_def)
  have p2: "pc (sessions s ! t) = AcqEnter \<longrightarrow>
            lock s = Some t \<and>
            (\<exists>s'. run v cap s t = Some s' \<and> lock s' = Some t \<and> active s' = active s \<and>
                  waiting s' = waiting s + 1 \<and> pc (sessions s' ! t) = AcqTest)"
    using own t by (cases v) (auto simp: run_def upd_def holds_lock_def Let_def)
  have p3: "pc (sessions s ! t) = AcqTest \<longrightarrow>
            lock s = Some t \<and>
            (\<exists>s'. run v cap s t = Some s' \<and> active s' = active s \<and> waiting s' = waiting s \<and>
                  lock s' = (if active s < cap then Some t else None) \<and>
                  pc (sessions s' ! t) = (if active s < cap then AcqLeave else Parked))"
    using own le t by (auto simp: run_def upd_def holds_lock_def Let_def)
  have p4: "pc (sessions s ! t) = Parked \<longrightarrow>
            run v cap s t = None \<and>
            (\<forall>u. pc (sessions s ! u) \<noteq> RelSignal \<longrightarrow> wake v s u t = None) \<and>
            (\<forall>u < length (sessions s). pc (sessions s ! u) = RelSignal \<longrightarrow>
               (\<exists>s'. wake v s u t = Some s' \<and> active s' = active s \<and> waiting s' = waiting s \<and>
                     lock s' = lock s \<and> pc (sessions s' ! t) = Woken))"
  proof (intro impI conjI allI)
    assume p: "pc (sessions s ! t) = Parked"
    show "run v cap s t = None" using p by (simp add: run_def)
    show "wake v s u t = None" if "pc (sessions s ! u) \<noteq> RelSignal" for u
      using that by (simp add: wake_def)
    show "\<exists>s'. wake v s u t = Some s' \<and> active s' = active s \<and> waiting s' = waiting s \<and>
                lock s' = lock s \<and> pc (sessions s' ! t) = Woken"
      if "u < length (sessions s)" "pc (sessions s ! u) = RelSignal" for u
    proof -
      from that p have "u \<noteq> t" by auto
      with that p t show ?thesis by (simp add: wake_def upd_def)
    qed
  qed
  have p5: "pc (sessions s ! t) = Woken \<longrightarrow>
            (lock s \<noteq> None \<longrightarrow> run v cap s t = None) \<and>
            (lock s = None \<longrightarrow>
               (\<exists>s'. run v cap s t = Some s' \<and> lock s' = Some t \<and> active s' = active s \<and>
                     waiting s' = waiting s \<and> pc (sessions s' ! t) = AcqTest))"
    using t by (auto simp: run_def upd_def Let_def)
  have p6: "pc (sessions s ! t) = AcqLeave \<longrightarrow>
            active s < cap \<and> lock s = Some t \<and>
            (\<exists>s'. run v cap s t = Some s' \<and> lock s' = Some t \<and> active s' = active s \<and>
                  waiting s' = waiting s - 1 \<and> pc (sessions s' ! t) = AcqAdmit)"
    using own lt t by (auto simp: run_def upd_def holds_lock_def Let_def)
  have p7: "pc (sessions s ! t) = AcqAdmit \<longrightarrow>
            active s < cap \<and> lock s = Some t \<and>
            (\<exists>s'. run v cap s t = Some s' \<and> active s' = active s + 1 \<and> waiting s' = waiting s \<and>
                  lock s' = Some t \<and> pc (sessions s' ! t) = AcqUnlock)"
    using own lt t by (auto simp: run_def upd_def holds_lock_def Let_def)
  have p8: "pc (sessions s ! t) = AcqUnlock \<longrightarrow>
            lock s = Some t \<and>
            (\<exists>s'. run v cap s t = Some s' \<and> lock s' = None \<and> active s' = active s \<and>
                  waiting s' = waiting s \<and> pc (sessions s' ! t) = Dialing \<and>
                  hist (sessions s' ! t) = hist (sessions s ! t) @ [Acquired])"
    using own t by (auto simp: run_def upd_def holds_lock_def act_def Let_def)
  from w st p1 p2 p3 p4 p5 p6 p7 p8 show ?thesis by blast
qed

theorem acquire_contract_witness:
  "(1::int) \<le> 2 \<and> exec Struct 2 init stats_probe \<noteq> None \<and>
   2 < length (sessions (the (exec Struct 2 init stats_probe))) \<and>
   pc (sessions (the (exec Struct 2 init stats_probe)) ! 2) = Parked \<and>
   waiting (the (exec Struct 2 init stats_probe)) = cnt in_wait (sessions (the (exec Struct 2 init stats_probe))) \<and>
   run Struct 2 (the (exec Struct 2 init stats_probe)) 2 = None"
proof -
  have c: "(1::int) \<le> 2" by simp
  obtain s where e: "exec Struct 2 init stats_probe = Some s"
    by (simp add: ev stats_probe_def)
  have l: "2 < length (sessions s)" and p: "pc (sessions s ! 2) = Parked"
    using e by (auto simp: ev stats_probe_def)
  from acquire_contract[OF c e l] p l e show ?thesis by simp
qed

text \<open>
  \<^bold>\<open>C10.\<close>  Every Acquire executes \<^verbatim>\<open>waiting++\<close> before the test and \<^verbatim>\<open>waiting--\<close>
  just before \<^verbatim>\<open>active++\<close>, whether or not it blocks.  So \<open>waiting\<close> is the number of
  blocked sessions plus the number of sessions that are passing through (at the test or at
  \<^verbatim>\<open>waiting--\<close>), and the stats line can report a waiting session that never blocks: in
  \<open>passing_probe\<close> the only session never parks and the line reads \<^verbatim>\<open>waiting: 1\<close>.
\<close>

theorem waiting_counts_passing_sessions:
  assumes cap: "1 \<le> cap" and ex: "exec v cap init es = Some s" and t: "t < length (sessions s)"
  shows "(pc (sessions s ! t) = AcqEnter \<longrightarrow>
            (\<exists>s'. run v cap s t = Some s' \<and> waiting s' = waiting s + 1 \<and> active s' = active s \<and>
                  pc (sessions s' ! t) = AcqTest)) \<and>
         (pc (sessions s ! t) = AcqLeave \<longrightarrow>
            (\<exists>s'. run v cap s t = Some s' \<and> waiting s' = waiting s - 1 \<and> active s' = active s \<and>
                  pc (sessions s' ! t) = AcqAdmit)) \<and>
         waiting s = cnt blocked (sessions s) + cnt (\<lambda>p. p = AcqTest \<or> p = AcqLeave) (sessions s) \<and>
         sio (conns (the (exec Closure 1 init passing_probe)) ! 0) =
           [IoWrite (''active: 0, waiting: 1'' @ [CHR 0x0A]), IoClose] \<and>
         length (sessions (the (exec Closure 1 init passing_probe))) = 1 \<and>
         pc (sessions (the (exec Closure 1 init passing_probe)) ! 0) = Dialing \<and>
         \<not> didWait (sessions (the (exec Closure 1 init passing_probe)) ! 0)"
proof -
  from cap have "0 \<le> cap" by simp
  from reach_gate_inv[OF this ex] have G: "gate_inv cap s" .
  have a: "pc (sessions s ! t) = AcqEnter \<longrightarrow>
            (\<exists>s'. run v cap s t = Some s' \<and> waiting s' = waiting s + 1 \<and> active s' = active s \<and>
                  pc (sessions s' ! t) = AcqTest)"
    using t by (cases v) (auto simp: run_def upd_def)
  have b: "pc (sessions s ! t) = AcqLeave \<longrightarrow>
            (\<exists>s'. run v cap s t = Some s' \<and> waiting s' = waiting s - 1 \<and> active s' = active s \<and>
                  pc (sessions s' ! t) = AcqAdmit)"
    using t by (auto simp: run_def upd_def)
  have "cnt in_wait (sessions s) =
        cnt blocked (sessions s) + cnt (\<lambda>p. p = AcqTest \<or> p = AcqLeave) (sessions s)"
    by (rule cnt_split) (auto simp: in_wait_def blocked_def)
  with G have c: "waiting s =
        cnt blocked (sessions s) + cnt (\<lambda>p. p = AcqTest \<or> p = AcqLeave) (sessions s)"
    by (simp add: gate_inv_def)
  have d: "sio (conns (the (exec Closure 1 init passing_probe)) ! 0) =
           [IoWrite (''active: 0, waiting: 1'' @ [CHR 0x0A]), IoClose]"
    "length (sessions (the (exec Closure 1 init passing_probe))) = 1"
    "pc (sessions (the (exec Closure 1 init passing_probe)) ! 0) = Dialing"
    "\<not> didWait (sessions (the (exec Closure 1 init passing_probe)) ! 0)"
    by (simp_all add: ev passing_probe_def stats_line_def fmt_d_def digits.simps digit_char_def)
  from a b c d show ?thesis by blast
qed

theorem waiting_counts_passing_sessions_witness:
  "(1::int) \<le> 1 \<and> exec Closure 1 init [Accept, Run 0, Run 0, Run 0] \<noteq> None \<and>
   0 < length (sessions (the (exec Closure 1 init [Accept, Run 0, Run 0, Run 0]))) \<and>
   pc (sessions (the (exec Closure 1 init [Accept, Run 0, Run 0, Run 0])) ! 0) = AcqTest \<and>
   waiting (the (exec Closure 1 init [Accept, Run 0, Run 0, Run 0])) = 1 \<and>
   cnt blocked (sessions (the (exec Closure 1 init [Accept, Run 0, Run 0, Run 0]))) = 0 \<and>
   cnt (\<lambda>p. p = AcqTest \<or> p = AcqLeave) (sessions (the (exec Closure 1 init [Accept, Run 0, Run 0, Run 0]))) = 1"
proof -
  have c: "(1::int) \<le> 1" by simp
  obtain s where e: "exec Closure 1 init [Accept, Run 0, Run 0, Run 0] = Some s"
    by (simp add: ev)
  have l: "0 < length (sessions s)" and p: "pc (sessions s ! 0) = AcqTest"
    and b: "cnt blocked (sessions s) = 0"
    using e by (auto simp: ev cnt_def blocked_def)
  from waiting_counts_passing_sessions[OF c e l] p l b e show ?thesis
    by (auto simp: ev)
qed

text \<open>
  \<^bold>\<open>C4.\<close>  \<^verbatim>\<open>post()\<close> / the end of \<^verbatim>\<open>teardown()\<close> as Release.  The specification says that a
  Release called while \<open>waiting > 0\<close> makes exactly one blocked Acquire return.  In
  \<open>barging\<close> session 0 enters \<^verbatim>\<open>post()\<close> while \<open>waiting = 1\<close> and session 1 is parked;
  when session 0 has finished, session 1 is parked again and no blocked Acquire has returned:
  session 2, which never waited, took the slot between the \<^verbatim>\<open>Unlock\<close> and the \<^verbatim>\<open>Signal\<close>
  of session 0.
\<close>

theorem release_wakes_none_counterexample:
  "waiting (the (exec Closure 1 init release_called)) = 1 \<and>
   pc (sessions (the (exec Closure 1 init release_called)) ! 0) = RelLock \<and>
   pc (sessions (the (exec Closure 1 init release_called)) ! 1) = Parked \<and>
   exec Closure 1 init barging \<noteq> None \<and>
   length (sessions (the (exec Closure 1 init barging))) = 3 \<and>
   pc (sessions (the (exec Closure 1 init barging)) ! 0) = Done \<and>
   hist (sessions (the (exec Closure 1 init barging)) ! 0) =
     [Acquired, Released, ClosedConn, Logged (LogError ''refused'')] \<and>
   pc (sessions (the (exec Closure 1 init barging)) ! 1) = Parked \<and>
   pc (sessions (the (exec Closure 1 init barging)) ! 2) = Dialing \<and>
   \<not> didWait (sessions (the (exec Closure 1 init barging)) ! 2) \<and>
   num returned_blocked (the (exec Closure 1 init barging)) = 0"
  by (simp add: ev barging_def release_called_def num_def returned_blocked_def)

text \<open>
  \<^bold>\<open>C4, amended.\<close>  What holds instead, in every reachable state.  Release takes the
  lock when it is free, decrements \<open>active\<close> (which is positive) by one under the lock, and
  releases the lock; each of these steps is there for every session.  Then, as a separate
  step, comes \<^verbatim>\<open>Signal\<close>: when nobody is parked it does nothing and Release is over; when
  somebody is parked it can wake any one parked session, it wakes exactly one, and it wakes
  no session that is not parked; \<open>active\<close> is not touched by it.  A woken session tests
  \<^verbatim>\<open>active == concurrency\<close> again (C3).  At every moment the number of sessions whose
  Acquire blocked and has returned is at most the number of sessions whose Release is
  complete: at most one per Release, possibly none.  And no freed slot is lost: while a
  session is parked, each free slot is matched by a session between its decrement and its
  \<^verbatim>\<open>Signal\<close>, or by a woken or arriving session between the test and the increment.
\<close>

theorem release_contract:
  assumes cap: "1 \<le> cap" and ex: "exec v cap init es = Some s" and t: "t < length (sessions s)"
  shows "(\<not> crashed s \<longrightarrow>
            step v cap s (Run t) = run v cap s t \<and> (\<forall>u. step v cap s (Wake t u) = wake v s t u)) \<and>
         (pc (sessions s ! t) = RelLock \<longrightarrow>
            (lock s \<noteq> None \<longrightarrow> run v cap s t = None) \<and>
            (lock s = None \<longrightarrow>
               (\<exists>s'. run v cap s t = Some s' \<and> lock s' = Some t \<and> active s' = active s \<and>
                     waiting s' = waiting s \<and> pc (sessions s' ! t) = RelDec))) \<and>
         (pc (sessions s ! t) = RelDec \<longrightarrow>
            lock s = Some t \<and> 0 < active s \<and>
            (\<exists>s'. run v cap s t = Some s' \<and> lock s' = Some t \<and> active s' = active s - 1 \<and>
                  waiting s' = waiting s \<and> pc (sessions s' ! t) = RelUnlock)) \<and>
         (pc (sessions s ! t) = RelUnlock \<longrightarrow>
            lock s = Some t \<and>
            (\<exists>s'. run v cap s t = Some s' \<and> lock s' = None \<and> active s' = active s \<and>
                  waiting s' = waiting s \<and> pc (sessions s' ! t) = RelSignal)) \<and>
         (pc (sessions s ! t) = RelSignal \<longrightarrow>
            (0 < num parked s \<longrightarrow> run v cap s t = None) \<and>
            (num parked s = 0 \<longrightarrow>
               (\<exists>s'. run v cap s t = Some s' \<and> lock s' = lock s \<and> active s' = active s \<and>
                     waiting s' = waiting s \<and>
                     pc (sessions s' ! t) = (if v = Closure then DeferClose else Done) \<and>
                     hist (sessions s' ! t) = hist (sessions s ! t) @ [Released] \<and>
                     num parked s' = 0 \<and>
                     num (\<lambda>c. pc c = Woken) s' = num (\<lambda>c. pc c = Woken) s)) \<and>
            (\<forall>u. \<not> (u < length (sessions s) \<and> pc (sessions s ! u) = Parked) \<longrightarrow>
               wake v s t u = None) \<and>
            (\<forall>u. u < length (sessions s) \<and> pc (sessions s ! u) = Parked \<longrightarrow>
               (\<exists>s'. wake v s t u = Some s' \<and> lock s' = lock s \<and> active s' = active s \<and>
                     waiting s' = waiting s \<and>
                     pc (sessions s' ! t) = (if v = Closure then DeferClose else Done) \<and>
                     hist (sessions s' ! t) = hist (sessions s ! t) @ [Released] \<and>
                     pc (sessions s' ! u) = Woken \<and>
                     num parked s' + 1 = num parked s \<and>
                     num (\<lambda>c. pc c = Woken) s' = num (\<lambda>c. pc c = Woken) s + 1))) \<and>
         num returned_blocked s \<le> num released s \<and>
         (0 < num parked s \<longrightarrow> cap - active s \<le> cnt on_the_way (sessions s))"
proof -
  from cap have "0 \<le> cap" by simp
  from reach_gate_inv[OF this ex] have G: "gate_inv cap s" .
  have own: "holds_lock (pc (sessions s ! t)) \<Longrightarrow> lock s = Some t"
    using G t by (simp add: gate_inv_def)
  have r0: "\<not> crashed s \<longrightarrow>
            step v cap s (Run t) = run v cap s t \<and> (\<forall>u. step v cap s (Wake t u) = wake v s t u)"
    using t by (simp add: step_def)
  have r1: "pc (sessions s ! t) = RelLock \<longrightarrow>
            (lock s \<noteq> None \<longrightarrow> run v cap s t = None) \<and>
            (lock s = None \<longrightarrow>
               (\<exists>s'. run v cap s t = Some s' \<and> lock s' = Some t \<and> active s' = active s \<and>
                     waiting s' = waiting s \<and> pc (sessions s' ! t) = RelDec))"
    using t by (auto simp: run_def upd_def Let_def)
  have r2: "pc (sessions s ! t) = RelDec \<longrightarrow>
            lock s = Some t \<and> 0 < active s \<and>
            (\<exists>s'. run v cap s t = Some s' \<and> lock s' = Some t \<and> active s' = active s - 1 \<and>
                  waiting s' = waiting s \<and> pc (sessions s' ! t) = RelUnlock)"
  proof
    assume p: "pc (sessions s ! t) = RelDec"
    from cnt_pos[OF t, of is_active] p G have "0 < active s"
      by (simp add: gate_inv_def is_active_def)
    with own p t show "lock s = Some t \<and> 0 < active s \<and>
            (\<exists>s'. run v cap s t = Some s' \<and> lock s' = Some t \<and> active s' = active s - 1 \<and>
                  waiting s' = waiting s \<and> pc (sessions s' ! t) = RelUnlock)"
      by (auto simp: run_def upd_def Let_def holds_lock_def)
  qed
  have r3: "pc (sessions s ! t) = RelUnlock \<longrightarrow>
            lock s = Some t \<and>
            (\<exists>s'. run v cap s t = Some s' \<and> lock s' = None \<and> active s' = active s \<and>
                  waiting s' = waiting s \<and> pc (sessions s' ! t) = RelSignal)"
    using own t by (auto simp: run_def upd_def Let_def holds_lock_def)
  have r4a: "run v cap s t = None" if "pc (sessions s ! t) = RelSignal" "0 < num parked s"
  proof -
    from that(2) num_parked_zero[of s] have "list_ex parked (sessions s)" by auto
    with that(1) show ?thesis by (simp add: run_def)
  qed
  have r4b: "\<exists>s'. run v cap s t = Some s' \<and> lock s' = lock s \<and> active s' = active s \<and>
                     waiting s' = waiting s \<and>
                     pc (sessions s' ! t) = (if v = Closure then DeferClose else Done) \<and>
                     hist (sessions s' ! t) = hist (sessions s ! t) @ [Released] \<and>
                     num parked s' = 0 \<and>
                     num (\<lambda>c. pc c = Woken) s' = num (\<lambda>c. pc c = Woken) s"
    if p: "pc (sessions s ! t) = RelSignal" and z: "num parked s = 0"
  proof -
    from z num_parked_pos[of s] have "\<not> list_ex parked (sessions s)" by auto
    with p obtain s' where R: "run v cap s t = Some s'" by (simp add: run_def)
    from run_RelSignal[OF R p] t
    have "lock s' = lock s \<and> active s' = active s \<and> waiting s' = waiting s \<and>
          pc (sessions s' ! t) = (if v = Closure then DeferClose else Done) \<and>
          hist (sessions s' ! t) = hist (sessions s ! t) @ [Released]"
      by (cases v) (simp_all add: upd_def act_def after_release_def)
    with run_signal_effect[OF t p R] R show ?thesis by simp
  qed
  have r4c: "wake v s t u = None" if "\<not> (u < length (sessions s) \<and> pc (sessions s ! u) = Parked)" for u
    using that by (auto simp: wake_def)
  have r4d: "\<exists>s'. wake v s t u = Some s' \<and> lock s' = lock s \<and> active s' = active s \<and>
                     waiting s' = waiting s \<and>
                     pc (sessions s' ! t) = (if v = Closure then DeferClose else Done) \<and>
                     hist (sessions s' ! t) = hist (sessions s ! t) @ [Released] \<and>
                     pc (sessions s' ! u) = Woken \<and>
                     num parked s' + 1 = num parked s \<and>
                     num (\<lambda>c. pc c = Woken) s' = num (\<lambda>c. pc c = Woken) s + 1"
    if p: "pc (sessions s ! t) = RelSignal"
      and u: "u < length (sessions s) \<and> pc (sessions s ! u) = Parked" for u
  proof -
    from p u have ne: "t \<noteq> u" by auto
    from p u obtain s' where W: "wake v s t u = Some s'"
      and E: "s' = upd (upd s u (\<lambda>c. c\<lparr>pc := Woken\<rparr>)) t
                     (\<lambda>c. act Released (c\<lparr>pc := after_release v\<rparr>))"
      by (simp add: wake_def)
    from E t u ne
    have "lock s' = lock s \<and> active s' = active s \<and> waiting s' = waiting s \<and>
          pc (sessions s' ! t) = (if v = Closure then DeferClose else Done) \<and>
          hist (sessions s' ! t) = hist (sessions s ! t) @ [Released] \<and>
          pc (sessions s' ! u) = Woken"
      by (cases v) (simp_all add: upd_def act_def after_release_def)
    with wake_signal_effect[OF t W] W show ?thesis by simp
  qed
  from r4a r4b r4c r4d
  have r4: "pc (sessions s ! t) = RelSignal \<longrightarrow>
            (0 < num parked s \<longrightarrow> run v cap s t = None) \<and>
            (num parked s = 0 \<longrightarrow>
               (\<exists>s'. run v cap s t = Some s' \<and> lock s' = lock s \<and> active s' = active s \<and>
                     waiting s' = waiting s \<and>
                     pc (sessions s' ! t) = (if v = Closure then DeferClose else Done) \<and>
                     hist (sessions s' ! t) = hist (sessions s ! t) @ [Released] \<and>
                     num parked s' = 0 \<and>
                     num (\<lambda>c. pc c = Woken) s' = num (\<lambda>c. pc c = Woken) s)) \<and>
            (\<forall>u. \<not> (u < length (sessions s) \<and> pc (sessions s ! u) = Parked) \<longrightarrow>
               wake v s t u = None) \<and>
            (\<forall>u. u < length (sessions s) \<and> pc (sessions s ! u) = Parked \<longrightarrow>
               (\<exists>s'. wake v s t u = Some s' \<and> lock s' = lock s \<and> active s' = active s \<and>
                     waiting s' = waiting s \<and>
                     pc (sessions s' ! t) = (if v = Closure then DeferClose else Done) \<and>
                     hist (sessions s' ! t) = hist (sessions s ! t) @ [Released] \<and>
                     pc (sessions s' ! u) = Woken \<and>
                     num parked s' + 1 = num parked s \<and>
                     num (\<lambda>c. pc c = Woken) s' = num (\<lambda>c. pc c = Woken) s + 1))"
    by blast
  have "num resumed s \<le> num released s" using reach_wake_inv[OF ex] by (simp add: wake_inv_def)
  moreover have "num returned_blocked s \<le> num resumed s"
    by (rule num_mono) (simp add: returned_blocked_def resumed_def)
  ultimately have r5: "num returned_blocked s \<le> num released s" by simp
  have r6: "0 < num parked s \<longrightarrow> cap - active s \<le> cnt on_the_way (sessions s)"
    using reach_slot_inv[OF ex] by (simp add: slot_inv_def)
  from r0 r1 r2 r3 r4 r5 r6 show ?thesis by blast
qed

theorem release_contract_witness:
  "(1::int) \<le> 1 \<and>
   exec Closure 1 init (release_called @ [Run 0, Run 0, Run 0]) \<noteq> None \<and>
   0 < length (sessions (the (exec Closure 1 init (release_called @ [Run 0, Run 0, Run 0])))) \<and>
   pc (sessions (the (exec Closure 1 init (release_called @ [Run 0, Run 0, Run 0]))) ! 0) = RelSignal \<and>
   pc (sessions (the (exec Closure 1 init (release_called @ [Run 0, Run 0, Run 0]))) ! 1) = Parked \<and>
   num parked (the (exec Closure 1 init (release_called @ [Run 0, Run 0, Run 0]))) = 1 \<and>
   run Closure 1 (the (exec Closure 1 init (release_called @ [Run 0, Run 0, Run 0]))) 0 = None \<and>
   wake Closure (the (exec Closure 1 init (release_called @ [Run 0, Run 0, Run 0]))) 0 1 \<noteq> None \<and>
   wake Closure (the (exec Closure 1 init (release_called @ [Run 0, Run 0, Run 0]))) 0 2 = None \<and>
   num parked (the (wake Closure (the (exec Closure 1 init (release_called @ [Run 0, Run 0, Run 0])))
                     0 1)) = 0"
proof -
  have c: "(1::int) \<le> 1" by simp
  obtain s where e: "exec Closure 1 init (release_called @ [Run 0, Run 0, Run 0]) = Some s"
    by (simp add: ev release_called_def)
  have l: "0 < length (sessions s)" and p: "pc (sessions s ! 0) = RelSignal"
    and q: "1 < length (sessions s)" "pc (sessions s ! 1) = Parked"
    and q2: "pc (sessions s ! 2) \<noteq> Parked"
    and n: "num parked s = 1"
    using e by (auto simp: ev release_called_def num_def)
  note K = release_contract[OF c e l]
  from K p n have a: "run Closure 1 s 0 = None" by simp
  from K p q obtain s' where w: "wake Closure s 0 1 = Some s'" "num parked s' + 1 = num parked s"
    by blast
  from K p q2 have b: "wake Closure s 0 2 = None" by blast
  from w n have "num parked s' = 0" by simp
  with e l p q n a w b show ?thesis by simp
qed

text \<open>
  \<^bold>\<open>C2.\<close>  The specification says that in both programs the pump is over as soon as one copy
  direction ends.  In main.go it is not: in \<open>one_side_done\<close> the client-to-backend copy has
  returned and called \<^verbatim>\<open>w.Done()\<close>, the other direction is still copying, and \<^verbatim>\<open>proxy\<close>
  stays at \<^verbatim>\<open>w.Wait()\<close> with \<^verbatim>\<open>doneAt\<close> not recorded.
\<close>

theorem pump_waits_for_both_counterexample:
  "exec Closure 1 init one_side_done \<noteq> None \<and>
   \<not> crashed (the (exec Closure 1 init one_side_done)) \<and>
   pc (sessions (the (exec Closure 1 init one_side_done)) ! 0) = Pump \<and>
   copyTo (sessions (the (exec Closure 1 init one_side_done)) ! 0) = TFinished \<and>
   copyFrom (sessions (the (exec Closure 1 init one_side_done)) ! 0) = TCopying \<and>
   hist (sessions (the (exec Closure 1 init one_side_done)) ! 0) = [Acquired] \<and>
   step Closure 1 (the (exec Closure 1 init one_side_done)) (Run 0) = None \<and>
   step Closure 1 (the (exec Closure 1 init one_side_done)) (Recv 0 C2S) = None"
  by (simp add: ev one_side_done_def)

text \<open>
  \<^bold>\<open>C2, amended.\<close>  What holds instead, for a session at the pump in a reachable state.  In part_000 a copy
  goroutine whose \<^verbatim>\<open>io.Copy\<close> has returned reaches \<^verbatim>\<open>done <- true\<close> without a panic, and
  as soon as one of them is there \<^verbatim>\<open>copyAll\<close> can receive, records \<^verbatim>\<open>c.done\<close> and goes on
  to \<^verbatim>\<open>logSuccess\<close>, whatever the other direction does.  In main.go \<^verbatim>\<open>w.Wait()\<close> returns
  exactly when both copy goroutines have returned, and only then \<^verbatim>\<open>doneAt\<close> is recorded.
\<close>

theorem pump_completion:
  assumes ex: "exec v cap init es = Some s" and t: "t < length (sessions s)"
    and p: "pc (sessions s ! t) = Pump" and nc: "\<not> crashed s"
  shows "(v = Struct \<longrightarrow>
            (\<forall>d. task_of d (sessions s ! t) = TCopied \<longrightarrow>
               (\<exists>s'. step v cap s (CopyRun t d) = Some s' \<and> \<not> crashed s' \<and>
                     pc (sessions s' ! t) = Pump \<and> task_of d (sessions s' ! t) = TSending)) \<and>
            (\<forall>d. task_of d (sessions s ! t) = TSending \<longrightarrow>
               (\<exists>s'. step v cap s (Recv t d) = Some s' \<and> pc (sessions s' ! t) = LogOk \<and>
                     hist (sessions s' ! t) = [Acquired, MarkDone]))) \<and>
         (v = Closure \<longrightarrow>
            (step v cap s (Run t) \<noteq> None) =
              (copyTo (sessions s ! t) = TFinished \<and> copyFrom (sessions s ! t) = TFinished) \<and>
            (\<forall>s'. step v cap s (Run t) = Some s' \<longrightarrow>
               pc (sessions s' ! t) = CloseServer \<and> hist (sessions s' ! t) = [Acquired, MarkDone]))"
proof -
  note K = sess_ok_pump[OF reach_sess_ok[OF ex t] p]
  have a: "\<exists>s'. step v cap s (CopyRun t d) = Some s' \<and> \<not> crashed s' \<and>
                pc (sessions s' ! t) = Pump \<and> task_of d (sessions s' ! t) = TSending"
    if "v = Struct" "task_of d (sessions s ! t) = TCopied" for d
  proof -
    from that(2) K(3) have "0 < wg (sessions s ! t)"
      by (cases d; cases "copyTo (sessions s ! t)"; cases "copyFrom (sessions s ! t)")
         (simp_all add: task_of_def pend_def)
    with that t p nc show ?thesis
      by (cases d) (simp_all add: step_def copy_run_def upd_def set_task_def task_of_def Let_def)
  qed
  have b: "\<exists>s'. step v cap s (Recv t d) = Some s' \<and> pc (sessions s' ! t) = LogOk \<and>
                hist (sessions s' ! t) = [Acquired, MarkDone]"
    if "v = Struct" "task_of d (sessions s ! t) = TSending" for d
    using that t p nc K(2)
    by (cases d) (simp_all add: step_def recv_def upd_def set_task_def task_of_def act_def Let_def)
  have c: "(step v cap s (Run t) \<noteq> None) =
              (copyTo (sessions s ! t) = TFinished \<and> copyFrom (sessions s ! t) = TFinished)"
    if "v = Closure"
  proof -
    from K(3,4,5) K(6)[OF that]
    have "(wg (sessions s ! t) = 0) =
          (copyTo (sessions s ! t) = TFinished \<and> copyFrom (sessions s ! t) = TFinished)"
      by (cases "copyTo (sessions s ! t)"; cases "copyFrom (sessions s ! t)")
         (simp_all add: pend_def)
    with that t p nc show ?thesis by (simp add: step_def run_def Let_def)
  qed
  have d: "pc (sessions s' ! t) = CloseServer \<and> hist (sessions s' ! t) = [Acquired, MarkDone]"
    if "step v cap s (Run t) = Some s'" for s'
  proof -
    from that t have R: "run v cap s t = Some s'" by (simp add: step_def split: if_splits)
    from run_Pump[OF R p] t K(2) show ?thesis by (simp add: upd_def act_def)
  qed
  from a b c d show ?thesis by blast
qed

theorem pump_completion_witness:
  "exec Struct 1 init one_side_done \<noteq> None \<and>
   0 < length (sessions (the (exec Struct 1 init one_side_done))) \<and>
   pc (sessions (the (exec Struct 1 init one_side_done)) ! 0) = Pump \<and>
   \<not> crashed (the (exec Struct 1 init one_side_done)) \<and>
   task_of C2S (sessions (the (exec Struct 1 init one_side_done)) ! 0) = TSending \<and>
   task_of S2C (sessions (the (exec Struct 1 init one_side_done)) ! 0) = TCopying \<and>
   step Struct 1 (the (exec Struct 1 init one_side_done)) (Recv 0 C2S) \<noteq> None"
proof -
  obtain s where e: "exec Struct 1 init one_side_done = Some s"
    by (simp add: ev one_side_done_def)
  have l: "0 < length (sessions s)" and p: "pc (sessions s ! 0) = Pump" and c: "\<not> crashed s"
    and k: "task_of C2S (sessions s ! 0) = TSending" "task_of S2C (sessions s ! 0) = TCopying"
    using e by (auto simp: ev one_side_done_def)
  from pump_completion[OF e l p c] k have "step Struct 1 s (Recv 0 C2S) \<noteq> None" by auto
  with e l p c k show ?thesis by simp
qed




text \<open>
  \<^bold>\<open>C6.\<close>  A session whose dial fails must log the error, give its slot back and close
  the client socket, without harm to other sessions.  main.go does so: in
  \<open>closure_dial_refused\<close> the session ends with \<open>active\<close> back at 0, the client socket
  closed and the error line written, and the other session can go on.  part_000 does not: in
  \<open>dial_refused_close\<close> the session logs the error and closes the client socket, then
  \<^verbatim>\<open>c.server.Close()\<close> on the nil connection panics; \<open>active\<close> stays at 1, no Release is
  done, and no goroutine of the process moves any more.
\<close>

theorem dial_failure_leaks_slot:
  "exec Struct 1 init dial_refused_close \<noteq> None \<and>
   crashed (the (exec Struct 1 init dial_refused_close)) \<and>
   active (the (exec Struct 1 init dial_refused_close)) = 1 \<and>
   conn (sessions (the (exec Struct 1 init dial_refused_close)) ! 0) = SClosed \<and>
   hist (sessions (the (exec Struct 1 init dial_refused_close)) ! 0) =
     [Acquired, Logged (LogError ''connection refused''), Logged LogTeardownStart, ClosedConn] \<and>
   step Struct 1 (the (exec Struct 1 init dial_refused_close)) (Run 0) = None \<and>
   step Struct 1 (the (exec Struct 1 init dial_refused_close)) (Run 1) = None \<and>
   step Struct 1 (the (exec Struct 1 init dial_refused_close)) Accept = None \<and>
   exec Closure 1 init closure_dial_refused \<noteq> None \<and>
   \<not> crashed (the (exec Closure 1 init closure_dial_refused)) \<and>
   active (the (exec Closure 1 init closure_dial_refused)) = 0 \<and>
   pc (sessions (the (exec Closure 1 init closure_dial_refused)) ! 0) = Done \<and>
   conn (sessions (the (exec Closure 1 init closure_dial_refused)) ! 0) = SClosed \<and>
   hist (sessions (the (exec Closure 1 init closure_dial_refused)) ! 0) =
     [Acquired, Released, ClosedConn, Logged (LogError ''connection refused'')] \<and>
   step Closure 1 (the (exec Closure 1 init closure_dial_refused)) (Run 1) \<noteq> None"
  by (simp add: ev dial_refused_close_def dial_refused_def closure_dial_refused_def)

text \<open>
  \<^bold>\<open>C7.\<close>  Closing a socket must never crash the process.  The one panic that either
  program can reach is the \<^verbatim>\<open>c.server.Close()\<close> of part_000's \<^verbatim>\<open>teardown\<close> after a failed
  dial, when \<^verbatim>\<open>c.server\<close> is nil: the client socket is closed by then, the backend socket
  never was opened.  main.go defers \<^verbatim>\<open>p.Close()\<close> only after a successful dial and never
  panics.
\<close>

theorem only_panic_is_nil_server_close:
  assumes ex: "exec v cap init es = Some s" and nc: "\<not> crashed s"
    and st: "step v cap s e = Some s'" and c: "crashed s'"
  shows "v = Struct \<and>
         (\<exists>t. e = Run t \<and> t < length (sessions s) \<and> pc (sessions s ! t) = CloseServer \<and>
              server (sessions s ! t) = SNil \<and> err (sessions s ! t) \<noteq> None \<and>
              conn (sessions s ! t) = SClosed \<and> ClosedServer \<notin> set (hist (sessions s ! t)))"
proof -
  from panic_only_on_nil_close[OF reach_all_ok[OF ex] nc st c] obtain t where
    v: "v = Struct" and t: "e = Run t" "t < length (sessions s)"
      "pc (sessions s ! t) = CloseServer" "server (sessions s ! t) = SNil"
      "err (sessions s ! t) \<noteq> None"
    by blast
  from reach_sess_ok[OF ex t(2)] v t(3,5)
  have "conn (sessions s ! t) = SClosed \<and> ClosedServer \<notin> set (hist (sessions s ! t))"
    by (cases "err (sessions s ! t)") (simp_all add: okdefs)
  with v t show ?thesis by blast
qed

theorem only_panic_is_nil_server_close_witness:
  "exec Struct 1 init dial_refused \<noteq> None \<and>
   \<not> crashed (the (exec Struct 1 init dial_refused)) \<and>
   step Struct 1 (the (exec Struct 1 init dial_refused)) (Run 0) \<noteq> None \<and>
   crashed (the (step Struct 1 (the (exec Struct 1 init dial_refused)) (Run 0))) \<and>
   pc (sessions (the (exec Struct 1 init dial_refused)) ! 0) = CloseServer \<and>
   server (sessions (the (exec Struct 1 init dial_refused)) ! 0) = SNil \<and>
   err (sessions (the (exec Struct 1 init dial_refused)) ! 0) = Some ''connection refused''"
proof -
  obtain s where e: "exec Struct 1 init dial_refused = Some s"
    by (simp add: ev dial_refused_def)
  have n: "\<not> crashed s" and r: "err (sessions s ! 0) = Some ''connection refused''"
    using e by (auto simp: ev dial_refused_def)
  obtain s' where st: "step Struct 1 s (Run 0) = Some s'" and c: "crashed s'"
    using e by (auto simp: ev dial_refused_def)
  from only_panic_is_nil_server_close[OF e n st c]
  have "pc (sessions s ! 0) = CloseServer \<and> server (sessions s ! 0) = SNil" by auto
  with e n st c r show ?thesis by simp
qed

text \<open>
  \<^bold>\<open>C8.\<close>  The specification says that after teardown no copy goroutine stays blocked.  In
  part_000 the channel \<^verbatim>\<open>done\<close> is unbuffered and \<^verbatim>\<open>copyAll\<close> receives from it once, so
  in no reachable state have both copy goroutines of a session returned: when the session is
  over exactly one has, and the other, once its \<^verbatim>\<open>io.Copy\<close> has been ended by the closed
  sockets, sits at \<^verbatim>\<open>done <- true\<close> with no step left.
\<close>

theorem struct_copy_goroutine_leaks:
  assumes ex: "exec Struct cap init es = Some s" and t: "t < length (sessions s)"
  shows "\<not> (copyTo (sessions s ! t) = TFinished \<and> copyFrom (sessions s ! t) = TFinished) \<and>
         (pc (sessions s ! t) = Done \<longrightarrow>
            (copyTo (sessions s ! t) = TFinished) \<noteq> (copyFrom (sessions s ! t) = TFinished)) \<and>
         (\<forall>d. pc (sessions s ! t) \<noteq> Pump \<and> task_of d (sessions s ! t) = TSending \<longrightarrow>
            step Struct cap s (Recv t d) = None \<and> step Struct cap s (CopyRun t d) = None \<and>
            step Struct cap s (CopyEnd t d) = None)"
proof -
  note K = sess_ok_tasks[OF reach_sess_ok[OF ex t]]
  have "step Struct cap s (Recv t d) = None \<and> step Struct cap s (CopyRun t d) = None \<and>
        step Struct cap s (CopyEnd t d) = None"
    if "pc (sessions s ! t) \<noteq> Pump \<and> task_of d (sessions s ! t) = TSending" for d
    using that by (simp add: step_def recv_def copy_run_def copy_end_def Let_def)
  with K show ?thesis by blast
qed

theorem struct_copy_goroutine_leaks_witness:
  "exec Struct 1 init struct_orphan \<noteq> None \<and>
   0 < length (sessions (the (exec Struct 1 init struct_orphan))) \<and>
   pc (sessions (the (exec Struct 1 init struct_orphan)) ! 0) = Done \<and>
   conn (sessions (the (exec Struct 1 init struct_orphan)) ! 0) = SClosed \<and>
   server (sessions (the (exec Struct 1 init struct_orphan)) ! 0) = SClosed \<and>
   copyTo (sessions (the (exec Struct 1 init struct_orphan)) ! 0) = TFinished \<and>
   copyFrom (sessions (the (exec Struct 1 init struct_orphan)) ! 0) = TSending \<and>
   step Struct 1 (the (exec Struct 1 init struct_orphan)) (Recv 0 S2C) = None \<and>
   step Struct 1 (the (exec Struct 1 init struct_orphan)) (CopyRun 0 S2C) = None \<and>
   step Struct 1 (the (exec Struct 1 init struct_orphan)) (CopyEnd 0 S2C) = None"
proof -
  obtain s where e: "exec Struct 1 init struct_orphan = Some s"
    by (simp add: ev struct_orphan_def struct_success_def one_side_done_def)
  have l: "0 < length (sessions s)" and p: "pc (sessions s ! 0) = Done"
    and k: "copyTo (sessions s ! 0) = TFinished" "copyFrom (sessions s ! 0) = TSending"
      "conn (sessions s ! 0) = SClosed" "server (sessions s ! 0) = SClosed"
    using e by (auto simp: ev struct_orphan_def struct_success_def one_side_done_def)
  from k have "task_of S2C (sessions s ! 0) = TSending" by (simp add: task_of_def)
  with struct_copy_goroutine_leaks[OF e l] p
  have "step Struct 1 s (Recv 0 S2C) = None \<and> step Struct 1 s (CopyRun 0 S2C) = None \<and>
        step Struct 1 s (CopyEnd 0 S2C) = None" by simp
  with e l p k show ?thesis by simp
qed



end
